theory Spec2Isabelle
  imports Complex_Main "HOL-Library.AList" "HOL-Library.Char_ord" "HOL-Library.List_Lexorder"
begin

section \<open>Data model of \<^verbatim>\<open>backend/main.py\<close>\<close>

text \<open>
  Python floats are modelled by the reals, with one extra value for \<^verbatim>\<open>float('inf')\<close>, which
  the search puts into its cost table; rounding and overflow of float arithmetic and NaN are
  outside the model. Node labels are strings, ordered as Python orders \<^verbatim>\<open>str\<close> (lexicographically by
  character code), which is the order of \<^theory_text>\<open>List_Lexorder\<close> over \<^theory_text>\<open>Char_ord\<close>.
  A Python \<^verbatim>\<open>dict\<close> is an association list in insertion order: \<^const>\<open>AList.update\<close> overwrites
  the value of a present key in place and appends an absent one, as \<^verbatim>\<open>d[k] = v\<close> does, and
  \<^const>\<open>map_of\<close> is the lookup.
\<close>

datatype pyfloat = Fin real | Infinity

fun fl_add :: "pyfloat \<Rightarrow> real \<Rightarrow> pyfloat" where
  "fl_add (Fin a) w = Fin (a + w)"
| "fl_add Infinity w = Infinity"

fun fl_less :: "pyfloat \<Rightarrow> pyfloat \<Rightarrow> bool" where
  "fl_less (Fin a) (Fin b) = (a < b)"
| "fl_less (Fin a) Infinity = True"
| "fl_less Infinity b = False"

text \<open>The exceptions the module can raise. \<open>Str e\<close> stands for \<^verbatim>\<open>str(e)\<close>.\<close>

datatype exn = KeyError string | HTTPException nat detail
and detail = Message string | Str exn

text \<open>
  \<^verbatim>\<open>class Edge(BaseModel)\<close>; the field \<^verbatim>\<open>from_\<close> is written \<open>from'\<close>. Both endpoints are
  taken as given in the request.
\<close>

record Edge =
  from' :: string
  to :: string
  distance :: real
  traffic :: real

record NodePosition =
  pos_x :: real
  pos_y :: real

record RouteRequest =
  nodes :: "string list"
  edges :: "Edge list"
  start :: string
  end' :: string
  algorithm :: string
  weightType :: string
  nodePositions :: "(string \<times> NodePosition) list"

text \<open>One element of \<^verbatim>\<open>steps\<close>: the dictionary appended at every settlement.\<close>

record PathStep =
  current :: string
  visited :: "string list"
  distances :: "(string \<times> real) list"
  previous :: "(string \<times> string) list"

text \<open>The dictionary returned by \<^verbatim>\<open>calculate_route\<close>; \<open>message\<close> is present only in the
  negative result.\<close>

record RouteResult =
  success :: bool
  message :: "string option"
  path :: "string list"
  steps :: "PathStep list"
  totalDistance :: real
  totalTraffic :: real

type_synonym adjacency = "(string \<times> (string \<times> real \<times> Edge) list) list"

record Graph =
  nodes :: "string list"
  edges :: "Edge list"
  weight_type :: string
  adj_list :: adjacency

section \<open>Graph construction\<close>

definition get_weight :: "string \<Rightarrow> Edge \<Rightarrow> real" where
  "get_weight wt edge =
     (if wt = ''distance'' then distance edge
      else if wt = ''traffic'' then traffic edge
      else distance edge + (traffic edge * 2))"

text \<open>The loop of \<^verbatim>\<open>_build_adjacency_list\<close>: \<^verbatim>\<open>adj[edge.from_]\<close> and then \<^verbatim>\<open>adj[edge.to]\<close>
  raise \<^verbatim>\<open>KeyError\<close> for an endpoint that is not a declared node.\<close>

fun build_edges :: "string \<Rightarrow> Edge list \<Rightarrow> adjacency \<Rightarrow> exn + adjacency" where
  "build_edges wt [] adj = Inr adj"
| "build_edges wt (edge # rest) adj =
     (let weight = get_weight wt edge in
      case map_of adj (from' edge) of
        None \<Rightarrow> Inl (KeyError (from' edge))
      | Some l1 \<Rightarrow>
          (let adj1 = AList.update (from' edge) (l1 @ [(to edge, weight, edge)]) adj in
           case map_of adj1 (to edge) of
             None \<Rightarrow> Inl (KeyError (to edge))
           | Some l2 \<Rightarrow>
               build_edges wt rest
                 (AList.update (to edge) (l2 @ [(from' edge, weight, edge)]) adj1)))"

definition build_adjacency_list :: "string list \<Rightarrow> Edge list \<Rightarrow> string \<Rightarrow> exn + adjacency" where
  "build_adjacency_list ns es wt =
     build_edges wt es (fold (\<lambda>node adj. AList.update node [] adj) ns [])"

definition Graph_init :: "string list \<Rightarrow> Edge list \<Rightarrow> string \<Rightarrow> exn + Graph" where
  "Graph_init ns es wt =
     (case build_adjacency_list ns es wt of
        Inl e \<Rightarrow> Inl e
      | Inr adj \<Rightarrow> Inr \<lparr>nodes = ns, edges = es, weight_type = wt, adj_list = adj\<rparr>)"

section \<open>The priority queue\<close>

text \<open>
  \<^verbatim>\<open>heapq\<close> keeps a binary heap in a list. \<^verbatim>\<open>heappop\<close> returns the least element under the
  elements' own \<^verbatim>\<open><\<close>, here the lexicographic order of tuples; entries that tie are equal
  tuples. The heap is therefore a bag: push appends, pop removes the least element.
\<close>

fun heap_min :: "('e \<Rightarrow> 'e \<Rightarrow> bool) \<Rightarrow> 'e \<Rightarrow> 'e list \<Rightarrow> 'e" where
  "heap_min lt m [] = m"
| "heap_min lt m (a # as) = heap_min lt (if lt a m then a else m) as"

definition heappop :: "('e \<Rightarrow> 'e \<Rightarrow> bool) \<Rightarrow> 'e list \<Rightarrow> 'e \<times> 'e list" where
  "heappop lt heap = (let m = heap_min lt (hd heap) (tl heap) in (m, remove1 m heap))"

definition heappush :: "'e list \<Rightarrow> 'e \<Rightarrow> 'e list" where
  "heappush heap item = heap @ [item]"

fun tuple2_lt :: "pyfloat \<times> string \<Rightarrow> pyfloat \<times> string \<Rightarrow> bool" where
  "tuple2_lt (d1, n1) (d2, n2) = (fl_less d1 d2 \<or> (d1 = d2 \<and> n1 < n2))"

fun tuple3_lt :: "pyfloat \<times> pyfloat \<times> string \<Rightarrow> pyfloat \<times> pyfloat \<times> string \<Rightarrow> bool" where
  "tuple3_lt (f1, r1) (f2, r2) = (fl_less f1 f2 \<or> (f1 = f2 \<and> tuple2_lt r1 r2))"

section \<open>The search state and the snapshots\<close>

text \<open>
  The local variables of a search. \<^verbatim>\<open>visited\<close> is a Python \<^verbatim>\<open>set\<close>; the order in which
  \<^verbatim>\<open>list(visited)\<close> enumerates it is that of the hash table and is not fixed by the program,
  so it is a parameter \<open>pl\<close> of the model (the list made of a set).
\<close>

record 'e search_state =
  st_distances :: "(string \<times> pyfloat) list"
  st_previous :: "(string \<times> string) list"
  st_visited :: "string set"
  st_steps :: "PathStep list"
  st_pq :: "'e list"

definition render :: "pyfloat \<Rightarrow> real" where
  "render v = (case v of Fin r \<Rightarrow> r | Infinity \<Rightarrow> 999999)"

definition snapshot ::
  "(string set \<Rightarrow> string list) \<Rightarrow> string \<Rightarrow> string set \<Rightarrow> (string \<times> pyfloat) list \<Rightarrow>
   (string \<times> string) list \<Rightarrow> PathStep" where
  "snapshot pl cur vis dists prev =
     \<lparr>current = cur, visited = pl vis,
      distances = map (\<lambda>(k, v). (k, render v)) dists,
      previous = prev\<rparr>"

text \<open>Path reconstruction: \<^verbatim>\<open>while current: path.insert(0, current); current = previous.get(current)\<close>.
  The loop stops at \<^verbatim>\<open>None\<close> and at the empty string, both false in Python; it has no bound
  of its own.\<close>

partial_function (option) reconstruct ::
  "(string \<times> string) list \<Rightarrow> string option \<Rightarrow> string list \<Rightarrow> string list option" where
  "reconstruct prev cur p =
     (case cur of
        None \<Rightarrow> Some p
      | Some c \<Rightarrow> if c = [] then Some p else reconstruct prev (map_of prev c) (c # p))"

definition init_distances :: "string list \<Rightarrow> string \<Rightarrow> (string \<times> pyfloat) list" where
  "init_distances ns s =
     AList.update s (Fin 0) (fold (\<lambda>node d. AList.update node Infinity d) ns [])"

section \<open>Uniform-cost search\<close>

type_synonym dentry = "pyfloat \<times> string"

fun dijkstra_relax ::
  "(string \<times> real \<times> Edge) list \<Rightarrow> string \<Rightarrow> dentry search_state \<Rightarrow> exn + dentry search_state" where
  "dijkstra_relax [] cur st = Inr st"
| "dijkstra_relax ((neighbor, weight, edge) # rest) cur st =
     (if neighbor \<in> st_visited st then dijkstra_relax rest cur st
      else case map_of (st_distances st) cur of
        None \<Rightarrow> Inl (KeyError cur)
      | Some dc \<Rightarrow>
          (let new_dist = fl_add dc weight in
           case map_of (st_distances st) neighbor of
             None \<Rightarrow> Inl (KeyError neighbor)
           | Some dn \<Rightarrow>
               if fl_less new_dist dn
               then dijkstra_relax rest cur
                      (st\<lparr>st_distances := AList.update neighbor new_dist (st_distances st),
                          st_previous := AList.update neighbor cur (st_previous st),
                          st_pq := heappush (st_pq st) (new_dist, neighbor)\<rparr>)
               else dijkstra_relax rest cur st))"

lemma dijkstra_relax_visited:
  "dijkstra_relax nbrs cur st = Inr st' \<Longrightarrow> st_visited st' = st_visited st"
  by (induction nbrs cur st rule: dijkstra_relax.induct)
     (auto split: if_splits option.splits simp: Let_def)

lemma heap_min_mem: "heap_min lt m as \<in> insert m (set as)"
  by (induction as arbitrary: m) (auto split: if_splits)

lemma heappop_mem: "heap \<noteq> [] \<Longrightarrow> fst (heappop lt heap) \<in> set heap"
  using heap_min_mem [of lt "hd heap" "tl heap"]
  by (cases heap) (auto simp: heappop_def Let_def)

lemma heappop_length:
  "heap \<noteq> [] \<Longrightarrow> length (snd (heappop lt heap)) < length heap"
proof -
  assume ne: "heap \<noteq> []"
  let ?m = "heap_min lt (hd heap) (tl heap)"
  from ne have "?m \<in> set heap"
    using heap_min_mem [of lt "hd heap" "tl heap"] by (cases heap) auto
  then have "length (remove1 ?m heap) < length heap"
    using ne by (simp add: length_remove1)
  then show ?thesis by (simp add: heappop_def Let_def)
qed

function dijkstra_loop ::
  "(string set \<Rightarrow> string list) \<Rightarrow> adjacency \<Rightarrow> string \<Rightarrow> dentry search_state \<Rightarrow>
   exn + dentry search_state" where
  "dijkstra_loop pl adj e st =
     (if st_pq st = [] then Inr st
      else
        let popped = heappop tuple2_lt (st_pq st);
            cur = snd (fst popped);
            st0 = st\<lparr>st_pq := snd popped\<rparr>
        in
          if cur \<in> st_visited st then dijkstra_loop pl adj e st0
          else
            let vis = insert cur (st_visited st);
                st1 = st0\<lparr>st_visited := vis,
                          st_steps := st_steps st @
                            [snapshot pl cur vis (st_distances st) (st_previous st)]\<rparr>
            in
              if cur = e then Inr st1
              else case map_of adj cur of
                None \<Rightarrow> Inl (KeyError cur)
              | Some nbrs \<Rightarrow>
                  (case dijkstra_relax nbrs cur st1 of
                     Inl ex \<Rightarrow> Inl ex
                   | Inr st2 \<Rightarrow> dijkstra_loop pl adj e st2))"
  by pat_completeness auto
termination
proof (relation "measures [\<lambda>(pl, adj, e, st). card (fst ` set adj - st_visited st),
                           \<lambda>(pl, adj, e, st). length (st_pq st)]", goal_cases)
  case 1
  show ?case by simp
next
  case (2 pl adj e st popped cur st0)
  then show ?case by (simp add: heappop_length)
next
  case (3 pl adj e st popped cur st0 vis st1 nbrs st2)
  from 3 have v: "st_visited st2 = insert cur (st_visited st)"
    by (simp add: dijkstra_relax_visited)
  from 3 have "cur \<in> fst ` set adj"
    by (metis map_of_eq_None_iff option.distinct(1))
  with 3 have "fst ` set adj - insert cur (st_visited st) \<subset> fst ` set adj - st_visited st"
    by auto
  then have "card (fst ` set adj - insert cur (st_visited st)) < card (fst ` set adj - st_visited st)"
    by (intro psubset_card_mono) auto
  with v show ?case by simp
qed

definition dijkstra ::
  "(string set \<Rightarrow> string list) \<Rightarrow> Graph \<Rightarrow> string \<Rightarrow> string \<Rightarrow>
   (exn + string list \<times> PathStep list) option" where
  "dijkstra pl g s e =
     (case dijkstra_loop pl (adj_list g) e
             \<lparr>st_distances = init_distances (Graph.nodes g) s, st_previous = [],
              st_visited = {}, st_steps = [], st_pq = [(Fin 0, s)]\<rparr> of
        Inl ex \<Rightarrow> Some (Inl ex)
      | Inr st \<Rightarrow>
          if map_of (st_previous st) e \<noteq> None \<or> s = e
          then map_option (\<lambda>p. Inr (p, st_steps st)) (reconstruct (st_previous st) (Some e) [])
          else Some (Inr ([], st_steps st)))"

section \<open>Heuristic-guided search\<close>

type_synonym aentry = "pyfloat \<times> pyfloat \<times> string"

definition heuristic :: "(string \<times> NodePosition) list \<Rightarrow> string \<Rightarrow> string \<Rightarrow> exn + real" where
  "heuristic node_positions e node_id =
     (case map_of node_positions node_id of
        None \<Rightarrow> Inl (KeyError node_id)
      | Some node_pos \<Rightarrow>
          (case map_of node_positions e of
             None \<Rightarrow> Inl (KeyError e)
           | Some end_pos \<Rightarrow>
               Inr (sqrt ((pos_x end_pos - pos_x node_pos)\<^sup>2 +
                          (pos_y end_pos - pos_y node_pos)\<^sup>2) / 10)))"

fun astar_relax ::
  "(string \<times> NodePosition) list \<Rightarrow> string \<Rightarrow> (string \<times> real \<times> Edge) list \<Rightarrow> string \<Rightarrow>
   aentry search_state \<Rightarrow> exn + aentry search_state" where
  "astar_relax node_positions e [] cur st = Inr st"
| "astar_relax node_positions e ((neighbor, weight, edge) # rest) cur st =
     (if neighbor \<in> st_visited st then astar_relax node_positions e rest cur st
      else case map_of (st_distances st) cur of
        None \<Rightarrow> Inl (KeyError cur)
      | Some dc \<Rightarrow>
          (let new_dist = fl_add dc weight in
           case map_of (st_distances st) neighbor of
             None \<Rightarrow> Inl (KeyError neighbor)
           | Some dn \<Rightarrow>
               if fl_less new_dist dn
               then (case heuristic node_positions e neighbor of
                       Inl ex \<Rightarrow> Inl ex
                     | Inr h \<Rightarrow>
                         astar_relax node_positions e rest cur
                           (st\<lparr>st_distances := AList.update neighbor new_dist (st_distances st),
                               st_previous := AList.update neighbor cur (st_previous st),
                               st_pq := heappush (st_pq st)
                                          (fl_add new_dist h, new_dist, neighbor)\<rparr>))
               else astar_relax node_positions e rest cur st))"

lemma astar_relax_visited:
  "astar_relax np e nbrs cur st = Inr st' \<Longrightarrow> st_visited st' = st_visited st"
  by (induction np e nbrs cur st rule: astar_relax.induct)
     (auto split: if_splits option.splits sum.splits simp: Let_def)

lemma card_unvisited_less:
  assumes "map_of adj cur = Some nbrs" and "cur \<notin> vis"
  shows "card (fst ` set adj - insert cur vis) < card (fst ` set adj - vis)"
proof -
  from assms(1) have "cur \<in> fst ` set adj"
    by (metis map_of_eq_None_iff option.distinct(1))
  with assms(2) have "fst ` set adj - insert cur vis \<subset> fst ` set adj - vis"
    by auto
  then show ?thesis
    by (intro psubset_card_mono) auto
qed

function astar_loop ::
  "(string set \<Rightarrow> string list) \<Rightarrow> adjacency \<Rightarrow> (string \<times> NodePosition) list \<Rightarrow> string \<Rightarrow>
   aentry search_state \<Rightarrow> exn + aentry search_state" where
  "astar_loop pl adj node_positions e st =
     (if st_pq st = [] then Inr st
      else
        let popped = heappop tuple3_lt (st_pq st);
            cur = snd (snd (fst popped));
            st0 = st\<lparr>st_pq := snd popped\<rparr>
        in
          if cur \<in> st_visited st then astar_loop pl adj node_positions e st0
          else
            let vis = insert cur (st_visited st);
                st1 = st0\<lparr>st_visited := vis,
                          st_steps := st_steps st @
                            [snapshot pl cur vis (st_distances st) (st_previous st)]\<rparr>
            in
              if cur = e then Inr st1
              else case map_of adj cur of
                None \<Rightarrow> Inl (KeyError cur)
              | Some nbrs \<Rightarrow>
                  (case astar_relax node_positions e nbrs cur st1 of
                     Inl ex \<Rightarrow> Inl ex
                   | Inr st2 \<Rightarrow> astar_loop pl adj node_positions e st2))"
  by pat_completeness auto
termination
proof (relation "measures [\<lambda>(pl, adj, np, e, st). card (fst ` set adj - st_visited st),
                           \<lambda>(pl, adj, np, e, st). length (st_pq st)]", goal_cases)
  case 1
  show ?case by simp
next
  case (2 pl adj np e st popped cur st0)
  then show ?case by (simp add: heappop_length)
next
  case (3 pl adj np e st popped cur st0 vis st1 nbrs st2)
  from 3 have "st_visited st2 = insert cur (st_visited st)"
    by (simp add: astar_relax_visited)
  with 3 show ?case by (simp add: card_unvisited_less)
qed

definition astar ::
  "(string set \<Rightarrow> string list) \<Rightarrow> Graph \<Rightarrow> string \<Rightarrow> string \<Rightarrow> (string \<times> NodePosition) list \<Rightarrow>
   (exn + string list \<times> PathStep list) option" where
  "astar pl g s e node_positions =
     (case heuristic node_positions e s of
        Inl ex \<Rightarrow> Some (Inl ex)
      | Inr h \<Rightarrow>
          (case astar_loop pl (adj_list g) node_positions e
                  \<lparr>st_distances = init_distances (Graph.nodes g) s, st_previous = [],
                   st_visited = {}, st_steps = [], st_pq = [(Fin h, Fin 0, s)]\<rparr> of
             Inl ex \<Rightarrow> Some (Inl ex)
           | Inr st \<Rightarrow>
               if map_of (st_previous st) e \<noteq> None \<or> s = e
               then map_option (\<lambda>p. Inr (p, st_steps st))
                      (reconstruct (st_previous st) (Some e) [])
               else Some (Inr ([], st_steps st))))"

section \<open>The route service\<close>

text \<open>\<^verbatim>\<open>round(v, 2)\<close>: to the nearest multiple of 1/100, a tie going to the even one.\<close>

definition py_round2 :: "real \<Rightarrow> real" where
  "py_round2 v =
     (let y = v * 100; f = \<lfloor>y\<rfloor>; d = y - of_int f in
      (if d < 1 / 2 then of_int f
       else if 1 / 2 < d then of_int (f + 1)
       else if even f then of_int f else of_int (f + 1)) / 100)"

text \<open>The two nested loops that sum the raw attributes of the first edge matching each
  consecutive pair of the path, in either orientation.\<close>

fun calc_totals :: "Edge list \<Rightarrow> string list \<Rightarrow> real \<Rightarrow> real \<Rightarrow> real \<times> real" where
  "calc_totals es (a # b # rest) total_distance total_traffic =
     (case find (\<lambda>edge. (from' edge = a \<and> to edge = b) \<or> (to edge = a \<and> from' edge = b)) es of
        None \<Rightarrow> calc_totals es (b # rest) total_distance total_traffic
      | Some edge \<Rightarrow>
          calc_totals es (b # rest) (total_distance + distance edge)
            (total_traffic + traffic edge))"
| "calc_totals es p total_distance total_traffic = (total_distance, total_traffic)"

text \<open>
  \<^verbatim>\<open>calculate_route\<close>. The result \<open>Some (Inl (HTTPException 500 (Str e)))\<close> is the handler
  \<^verbatim>\<open>except Exception as e: raise HTTPException(status_code=500, detail=str(e))\<close>, which also
  catches the \<^verbatim>\<open>HTTPException(400)\<close> raised inside the \<^verbatim>\<open>try\<close> block; \<open>None\<close> is a call that
  does not return.
\<close>

definition calculate_route ::
  "(string set \<Rightarrow> string list) \<Rightarrow> RouteRequest \<Rightarrow> (exn + RouteResult) option" where
  "calculate_route pl request =
     (case Graph_init (RouteRequest.nodes request) (RouteRequest.edges request)
             (weightType request) of
        Inl ex \<Rightarrow> Some (Inl (HTTPException 500 (Str ex)))
      | Inr graph \<Rightarrow>
          (case (if algorithm request = ''dijkstra''
                 then dijkstra pl graph (start request) (end' request)
                 else if algorithm request = ''astar''
                 then astar pl graph (start request) (end' request) (nodePositions request)
                 else Some (Inl (HTTPException 400 (Message ''Invalid algorithm'')))) of
             None \<Rightarrow> None
           | Some (Inl ex) \<Rightarrow> Some (Inl (HTTPException 500 (Str ex)))
           | Some (Inr (p, stps)) \<Rightarrow>
               if p = []
               then Some (Inr \<lparr>success = False,
                               message = Some ''No path found between selected nodes'',
                               path = [], steps = [], totalDistance = 0, totalTraffic = 0\<rparr>)
               else
                 (case calc_totals (RouteRequest.edges request) p 0 0 of
                    (total_distance, total_traffic) \<Rightarrow>
                      Some (Inr \<lparr>success = True, message = None, path = p, steps = stps,
                                 totalDistance = py_round2 total_distance,
                                 totalTraffic = py_round2 total_traffic\<rparr>))))"

section \<open>The common shape of the two searches\<close>

text \<open>
  The two loops of the source differ only in the tuple they push and in the component of the
  popped tuple that names the node. \<open>search_loop\<close> is that loop with the tuple order \<open>lt\<close>, the
  node component \<open>nd\<close> and the tuple constructor \<open>mk\<close> (which may raise) as parameters; both
  loops are shown equal to an instance of it, and the facts they share are proved once.
\<close>

fun search_relax ::
  "(pyfloat \<Rightarrow> string \<Rightarrow> exn + 'e) \<Rightarrow> (string \<times> real \<times> Edge) list \<Rightarrow> string \<Rightarrow>
   'e search_state \<Rightarrow> exn + 'e search_state" where
  "search_relax mk [] cur st = Inr st"
| "search_relax mk ((neighbor, weight, edge) # rest) cur st =
     (if neighbor \<in> st_visited st then search_relax mk rest cur st
      else case map_of (st_distances st) cur of
        None \<Rightarrow> Inl (KeyError cur)
      | Some dc \<Rightarrow>
          (let new_dist = fl_add dc weight in
           case map_of (st_distances st) neighbor of
             None \<Rightarrow> Inl (KeyError neighbor)
           | Some dn \<Rightarrow>
               if fl_less new_dist dn
               then (case mk new_dist neighbor of
                       Inl ex \<Rightarrow> Inl ex
                     | Inr item \<Rightarrow>
                         search_relax mk rest cur
                           (st\<lparr>st_distances := AList.update neighbor new_dist (st_distances st),
                               st_previous := AList.update neighbor cur (st_previous st),
                               st_pq := heappush (st_pq st) item\<rparr>))
               else search_relax mk rest cur st))"

lemma search_relax_visited:
  "search_relax mk nbrs cur st = Inr st' \<Longrightarrow> st_visited st' = st_visited st"
  by (induction mk nbrs cur st rule: search_relax.induct)
     (auto split: if_splits option.splits sum.splits simp: Let_def)

lemma search_relax_steps:
  "search_relax mk nbrs cur st = Inr st' \<Longrightarrow> st_steps st' = st_steps st"
  by (induction mk nbrs cur st rule: search_relax.induct)
     (auto split: if_splits option.splits sum.splits simp: Let_def)

function search_loop ::
  "('e \<Rightarrow> 'e \<Rightarrow> bool) \<Rightarrow> ('e \<Rightarrow> string) \<Rightarrow> (pyfloat \<Rightarrow> string \<Rightarrow> exn + 'e) \<Rightarrow>
   (string set \<Rightarrow> string list) \<Rightarrow> adjacency \<Rightarrow> string \<Rightarrow> 'e search_state \<Rightarrow>
   exn + 'e search_state" where
  "search_loop lt nd mk pl adj e st =
     (if st_pq st = [] then Inr st
      else
        let popped = heappop lt (st_pq st);
            cur = nd (fst popped);
            st0 = st\<lparr>st_pq := snd popped\<rparr>
        in
          if cur \<in> st_visited st then search_loop lt nd mk pl adj e st0
          else
            let vis = insert cur (st_visited st);
                st1 = st0\<lparr>st_visited := vis,
                          st_steps := st_steps st @
                            [snapshot pl cur vis (st_distances st) (st_previous st)]\<rparr>
            in
              if cur = e then Inr st1
              else case map_of adj cur of
                None \<Rightarrow> Inl (KeyError cur)
              | Some nbrs \<Rightarrow>
                  (case search_relax mk nbrs cur st1 of
                     Inl ex \<Rightarrow> Inl ex
                   | Inr st2 \<Rightarrow> search_loop lt nd mk pl adj e st2))"
  by pat_completeness auto
termination
proof (relation "measures [\<lambda>(lt, nd, mk, pl, adj, e, st). card (fst ` set adj - st_visited st),
                           \<lambda>(lt, nd, mk, pl, adj, e, st). length (st_pq st)]", goal_cases)
  case 1
  show ?case by simp
next
  case (2 lt nd mk pl adj e st popped cur st0)
  then show ?case by (simp add: heappop_length)
next
  case (3 lt nd mk pl adj e st popped cur st0 vis st1 nbrs st2)
  from 3 have "st_visited st2 = insert cur (st_visited st)"
    by (simp add: search_relax_visited)
  with 3 show ?case by (simp add: card_unvisited_less)
qed

definition dijkstra_mk :: "pyfloat \<Rightarrow> string \<Rightarrow> exn + dentry" where
  "dijkstra_mk d n = Inr (d, n)"

definition astar_mk ::
  "(string \<times> NodePosition) list \<Rightarrow> string \<Rightarrow> pyfloat \<Rightarrow> string \<Rightarrow> exn + aentry" where
  "astar_mk node_positions e d n =
     (case heuristic node_positions e n of
        Inl ex \<Rightarrow> Inl ex
      | Inr h \<Rightarrow> Inr (fl_add d h, d, n))"

lemma dijkstra_relax_eq:
  "dijkstra_relax nbrs cur st = search_relax dijkstra_mk nbrs cur st"
  by (induction nbrs cur st rule: dijkstra_relax.induct)
     (simp_all add: dijkstra_mk_def Let_def split: option.splits)

lemma astar_relax_eq:
  "astar_relax np e nbrs cur st = search_relax (astar_mk np e) nbrs cur st"
  by (induction np e nbrs cur st rule: astar_relax.induct)
     (simp_all add: astar_mk_def Let_def split: option.splits sum.splits)

declare dijkstra_loop.simps [simp del] astar_loop.simps [simp del] search_loop.simps [simp del]

lemma dijkstra_loop_eq:
  "dijkstra_loop pl adj e st = search_loop tuple2_lt snd dijkstra_mk pl adj e st"
proof (induction pl adj e st rule: dijkstra_loop.induct)
  case (1 pl adj e st)
  show ?case
    apply (subst dijkstra_loop.simps)
    apply (subst search_loop.simps)
    using 1
    by (auto simp: Let_def dijkstra_relax_eq split: option.splits sum.splits)
qed

lemma astar_loop_eq:
  "astar_loop pl adj np e st = search_loop tuple3_lt (\<lambda>t. snd (snd t)) (astar_mk np e) pl adj e st"
proof (induction pl adj np e st rule: astar_loop.induct)
  case (1 pl adj np e st)
  show ?case
    apply (subst astar_loop.simps)
    apply (subst search_loop.simps)
    using 1
    by (auto simp: Let_def astar_relax_eq split: option.splits sum.splits)
qed

section \<open>Proof rules for the loops\<close>

lemma heappop_rest: "set (snd (heappop lt heap)) \<subseteq> set heap"
  using set_remove1_subset [of _ heap] by (auto simp: heappop_def Let_def)


lemma heappop_single: "heappop lt [a] = (a, [])"
  by (simp add: heappop_def)

lemma search_loop_rule:
  fixes st :: "'e search_state"
  assumes run: "search_loop lt nd mk pl adj e st = Inr st'"
    and init: "I st"
    and skip: "\<forall>st :: 'e search_state. I st \<longrightarrow> st_pq st \<noteq> [] \<longrightarrow>
       nd (fst (heappop lt (st_pq st))) \<in> st_visited st \<longrightarrow>
       I (st\<lparr>st_pq := snd (heappop lt (st_pq st))\<rparr>)"
    and settle: "\<forall>(st :: 'e search_state) cur. I st \<longrightarrow> st_pq st \<noteq> [] \<longrightarrow>
       cur = nd (fst (heappop lt (st_pq st))) \<longrightarrow> cur \<notin> st_visited st \<longrightarrow>
       J cur (st\<lparr>st_pq := snd (heappop lt (st_pq st)),
                 st_visited := insert cur (st_visited st),
                 st_steps := st_steps st @
                   [snapshot pl cur (insert cur (st_visited st)) (st_distances st) (st_previous st)]\<rparr>)"
    and relax: "\<forall>(st1 :: 'e search_state) cur nbrs st2. J cur st1 \<longrightarrow> cur \<noteq> e \<longrightarrow>
       map_of adj cur = Some nbrs \<longrightarrow> search_relax mk nbrs cur st1 = Inr st2 \<longrightarrow> I st2"
  shows "(st_pq st' = [] \<and> I st') \<or> J e st'"
  using assms
proof (induction lt nd mk pl adj e st rule: search_loop.induct)
  case (1 lt nd mk pl adj e st)
  note IH = "1.IH" and run = "1.prems"(1) and I = "1.prems"(2)
    and skip = "1.prems"(3) and settle = "1.prems"(4) and relax = "1.prems"(5)
  show ?case
  proof (cases "st_pq st = []")
    case True
    with run I show ?thesis by (simp add: search_loop.simps)
  next
    case ne: False
    define popped where "popped = heappop lt (st_pq st)"
    define cur where "cur = nd (fst popped)"
    define st0 where "st0 = st\<lparr>st_pq := snd popped\<rparr>"
    show ?thesis
    proof (cases "cur \<in> st_visited st")
      case True
      with run ne have r: "search_loop lt nd mk pl adj e st0 = Inr st'"
        by (subst (asm) search_loop.simps) (simp add: Let_def popped_def cur_def st0_def)
      from True have "nd (fst (heappop lt (st_pq st))) \<in> st_visited st"
        by (simp add: cur_def popped_def)
      from skip I ne this have "I st0"
        by (simp add: st0_def popped_def)
      from IH(1) [OF ne popped_def cur_def st0_def True r this skip settle relax]
      show ?thesis .
    next
      case nv: False
      define vis where "vis = insert cur (st_visited st)"
      define st1 where "st1 = st0\<lparr>st_visited := vis,
                          st_steps := st_steps st @
                            [snapshot pl cur vis (st_distances st) (st_previous st)]\<rparr>"
      have J1: "J cur st1"
        using settle I ne nv by (simp add: st1_def st0_def vis_def cur_def popped_def)
      show ?thesis
      proof (cases "cur = e")
        case True
        with run ne nv have "st' = st1"
          by (subst (asm) search_loop.simps)
             (simp add: Let_def popped_def cur_def st0_def st1_def vis_def)
        with J1 True show ?thesis by simp
      next
        case nee: False
        from run ne nv nee obtain nbrs st2 where
          a: "map_of adj cur = Some nbrs" and
          rl: "search_relax mk nbrs cur st1 = Inr st2" and
          r: "search_loop lt nd mk pl adj e st2 = Inr st'"
          by (subst (asm) search_loop.simps)
             (auto simp: Let_def popped_def cur_def st0_def st1_def vis_def
                   split: option.splits sum.splits)
        have "I st2" using relax J1 nee a rl by blast
        from IH(2) [OF ne popped_def cur_def st0_def nv vis_def st1_def nee a rl r this
            skip settle relax]
        show ?thesis .
      qed
    qed
  qed
qed

abbreviation Dm :: "'e search_state \<Rightarrow> string \<Rightarrow> pyfloat option" where
  "Dm st \<equiv> map_of (st_distances st)"

abbreviation Pm :: "'e search_state \<Rightarrow> string \<Rightarrow> string option" where
  "Pm st \<equiv> map_of (st_previous st)"

definition arc :: "adjacency \<Rightarrow> string \<Rightarrow> string \<Rightarrow> real \<Rightarrow> bool" where
  "arc adj u v w =
     (case map_of adj u of
        None \<Rightarrow> False
      | Some nbrs \<Rightarrow> (v, w) \<in> (\<lambda>(n, c, ed). (n, c)) ` set nbrs)"

lemma arcI: "map_of adj u = Some nbrs \<Longrightarrow> (v, w, ed) \<in> set nbrs \<Longrightarrow> arc adj u v w"
  by (force simp: arc_def)


definition pos :: "PathStep list \<Rightarrow> string \<Rightarrow> nat" where
  "pos T v = length (takeWhile (\<lambda>c. c \<noteq> v) (map current T))"

lemma pos_append_old: "v \<in> set (map current T) \<Longrightarrow> pos (T @ [a]) v = pos T v"
  by (simp add: pos_def takeWhile_append1 del: set_map)

lemma search_relax_rule:
  fixes st :: "'e search_state"
  assumes run: "search_relax mk nbrs cur st = Inr st'"
    and init: "K st"
    and sub: "set nbrs \<subseteq> A"
    and upd: "\<forall>(st :: 'e search_state) n w ed dc dn item. K st \<longrightarrow> (n, w, ed) \<in> A \<longrightarrow>
       n \<notin> st_visited st \<longrightarrow> Dm st cur = Some dc \<longrightarrow> Dm st n = Some dn \<longrightarrow>
       fl_less (fl_add dc w) dn \<longrightarrow> mk (fl_add dc w) n = Inr item \<longrightarrow>
       K (st\<lparr>st_distances := AList.update n (fl_add dc w) (st_distances st),
              st_previous := AList.update n cur (st_previous st),
              st_pq := heappush (st_pq st) item\<rparr>)"
  shows "K st'"
  using assms
proof (induction mk nbrs cur st rule: search_relax.induct)
  case (1 mk cur st)
  then show ?case by simp
next
  case (2 mk neighbor weight edge rest cur st)
  note run = "2.prems"(1) and K = "2.prems"(2) and sub = "2.prems"(3) and upd = "2.prems"(4)
  from sub have sub': "set rest \<subseteq> A" and mem: "(neighbor, weight, edge) \<in> A" by auto
  show ?case
  proof (cases "neighbor \<in> st_visited st")
    case True
    with run have "search_relax mk rest cur st = Inr st'" by simp
    from "2.IH"(1) [OF True this K sub' upd] show ?thesis .
  next
    case nv: False
    from run nv obtain dc where dc: "Dm st cur = Some dc"
      by (auto split: option.splits)
    from run nv dc obtain dn where dn: "Dm st neighbor = Some dn"
      by (auto split: option.splits simp: Let_def)
    show ?thesis
    proof (cases "fl_less (fl_add dc weight) dn")
      case False
      with run nv dc dn have "search_relax mk rest cur st = Inr st'" by (simp add: Let_def)
      from "2.IH"(3) [OF nv dc refl dn False this K sub' upd] show ?thesis .
    next
      case True
      with run nv dc dn obtain item where it: "mk (fl_add dc weight) neighbor = Inr item"
        by (auto simp: Let_def split: sum.splits)
      let ?st = "st\<lparr>st_distances := AList.update neighbor (fl_add dc weight) (st_distances st),
              st_previous := AList.update neighbor cur (st_previous st),
              st_pq := heappush (st_pq st) item\<rparr>"
      from run nv dc dn True it have r: "search_relax mk rest cur ?st = Inr st'"
        by (simp add: Let_def)
      from upd K mem nv dc dn True it have "K ?st" by blast
      from "2.IH"(2) [OF nv dc refl dn True it r this sub' upd] show ?thesis .
    qed
  qed
qed

section \<open>The basic invariant of a search\<close>

definition inv_trace :: "'e search_state \<Rightarrow> bool" where
  "inv_trace st \<longleftrightarrow>
     st_visited st = set (map current (st_steps st)) \<and> distinct (map current (st_steps st))"

definition inv_start :: "('e \<Rightarrow> string) \<Rightarrow> string \<Rightarrow> 'e search_state \<Rightarrow> bool" where
  "inv_start nd s st \<longleftrightarrow>
     Dm st s = Some (Fin 0) \<and> Pm st s = None \<and>
     (s \<in> st_visited st \<or> (st_visited st = {} \<and> (\<exists>e0. st_pq st = [e0] \<and> nd e0 = s)))"

definition inv_prev :: "adjacency \<Rightarrow> 'e search_state \<Rightarrow> bool" where
  "inv_prev adj st \<longleftrightarrow>
     (\<forall>n u. Pm st n = Some u \<longrightarrow>
        u \<in> st_visited st \<and>
        (\<exists>du w. Dm st u = Some (Fin du) \<and> arc adj u n w \<and> Dm st n = Some (Fin (du + w))))"

definition inv_reach :: "string \<Rightarrow> 'e search_state \<Rightarrow> bool" where
  "inv_reach s st \<longleftrightarrow> (\<forall>n d. Dm st n = Some (Fin d) \<longrightarrow> n = s \<or> Pm st n \<noteq> None)"

definition inv_fin :: "('e \<Rightarrow> string) \<Rightarrow> 'e search_state \<Rightarrow> bool" where
  "inv_fin nd st \<longleftrightarrow>
     (\<forall>x \<in> set (st_pq st). \<exists>d. Dm st (nd x) = Some (Fin d)) \<and>
     (\<forall>v \<in> st_visited st. \<exists>d. Dm st v = Some (Fin d))"

definition inv_dom :: "string \<Rightarrow> string list \<Rightarrow> 'e search_state \<Rightarrow> bool" where
  "inv_dom s ns st \<longleftrightarrow> dom (Dm st) = insert s (set ns)"

definition inv_rank :: "'e search_state \<Rightarrow> bool" where
  "inv_rank st \<longleftrightarrow>
     (\<forall>n u. Pm st n = Some u \<longrightarrow> n \<in> st_visited st \<longrightarrow>
        pos (st_steps st) u < pos (st_steps st) n)"

definition inv_basic ::
  "('e \<Rightarrow> string) \<Rightarrow> adjacency \<Rightarrow> string \<Rightarrow> string list \<Rightarrow> 'e search_state \<Rightarrow> bool" where
  "inv_basic nd adj s ns st \<longleftrightarrow>
     inv_trace st \<and> inv_start nd s st \<and> inv_prev adj st \<and> inv_reach s st \<and>
     inv_fin nd st \<and> inv_dom s ns st \<and> inv_rank st"

lemma map_of_fold_update:
  "map_of (fold (\<lambda>k d. AList.update k v d) ks al) = (\<lambda>k. if k \<in> set ks then Some v else map_of al k)"
  by (induction ks arbitrary: al) (auto simp: update_conv' fun_eq_iff)

lemma map_of_init_distances:
  "map_of (init_distances ns s) = (\<lambda>k. if k = s then Some (Fin 0) else if k \<in> set ns then Some Infinity else None)"
  by (auto simp: init_distances_def update_conv' map_of_fold_update fun_eq_iff)

lemma inv_basic_init:
  "nd e0 = s \<Longrightarrow> inv_basic nd adj s ns
     \<lparr>st_distances = init_distances ns s, st_previous = [], st_visited = {}, st_steps = [],
      st_pq = [e0]\<rparr>"
  by (auto simp: inv_basic_def inv_trace_def inv_start_def inv_prev_def inv_reach_def inv_fin_def
      inv_dom_def inv_rank_def map_of_init_distances split: if_splits)

lemma inv_frame_pq [simp]:
  "inv_trace (st\<lparr>st_pq := q\<rparr>) = inv_trace st"
  "inv_prev adj (st\<lparr>st_pq := q\<rparr>) = inv_prev adj st"
  "inv_reach s (st\<lparr>st_pq := q\<rparr>) = inv_reach s st"
  "inv_dom s ns (st\<lparr>st_pq := q\<rparr>) = inv_dom s ns st"
  "inv_rank (st\<lparr>st_pq := q\<rparr>) = inv_rank st"
  by (simp_all add: inv_trace_def inv_prev_def inv_reach_def inv_dom_def inv_rank_def)

lemma start_visited: "inv_start nd s st \<Longrightarrow> v \<in> st_visited st \<Longrightarrow> s \<in> st_visited st"
  by (auto simp: inv_start_def)

lemma inv_basic_skip:
  assumes inv: "inv_basic nd adj s ns st" and ne: "st_pq st \<noteq> []"
    and vis: "nd (fst (heappop lt (st_pq st))) \<in> st_visited st"
  shows "inv_basic nd adj s ns (st\<lparr>st_pq := snd (heappop lt (st_pq st))\<rparr>)"
proof -
  from inv vis have "s \<in> st_visited st" by (auto simp: inv_basic_def dest: start_visited)
  with inv have "inv_start nd s (st\<lparr>st_pq := snd (heappop lt (st_pq st))\<rparr>)"
    by (simp add: inv_basic_def inv_start_def)
  moreover from inv have "inv_fin nd (st\<lparr>st_pq := snd (heappop lt (st_pq st))\<rparr>)"
    using heappop_rest [of lt "st_pq st"] by (auto simp: inv_basic_def inv_fin_def)
  ultimately show ?thesis
    using inv by (simp add: inv_basic_def)
qed

lemma pos_new: "v \<notin> set (map current T) \<Longrightarrow> current a = v \<Longrightarrow> pos (T @ [a]) v = length T"
proof -
  assume a: "v \<notin> set (map current T)" "current a = v"
  have "takeWhile (\<lambda>c. c \<noteq> v) (map current T @ [v]) = map current T @ takeWhile (\<lambda>c. c \<noteq> v) [v]"
    using a(1) by (intro takeWhile_append2) auto
  with a(2) show ?thesis by (simp add: pos_def)
qed

lemma pos_less: "v \<in> set (map current T) \<Longrightarrow> pos T v < length T"
  by (induction T) (auto simp: pos_def)

lemma inv_basic_settle:
  assumes inv: "inv_basic nd adj s ns st" and ne: "st_pq st \<noteq> []"
    and cur: "cur = nd (fst (heappop lt (st_pq st)))" and nv: "cur \<notin> st_visited st"
  shows "inv_basic nd adj s ns (st\<lparr>st_pq := snd (heappop lt (st_pq st)),
                 st_visited := insert cur (st_visited st),
                 st_steps := st_steps st @
                   [snapshot pl cur (insert cur (st_visited st)) (st_distances st) (st_previous st)]\<rparr>)"
    (is "inv_basic _ _ _ _ ?st1")
proof -
  let ?T = "st_steps st" and ?V = "st_visited st"
  let ?a = "snapshot pl cur (insert cur ?V) (st_distances st) (st_previous st)"
  have ca: "current ?a = cur" by (simp add: snapshot_def)
  from inv have tr: "inv_trace st" and sta: "inv_start nd s st" and prv: "inv_prev adj st"
    and rch: "inv_reach s st" and fin: "inv_fin nd st" and dm: "inv_dom s ns st"
    and rk: "inv_rank st" by (simp_all add: inv_basic_def)
  from tr have V: "?V = set (map current ?T)" by (simp add: inv_trace_def)
  have popin: "fst (heappop lt (st_pq st)) \<in> set (st_pq st)" using ne by (rule heappop_mem)
  from fin popin cur obtain dcur where dcur: "Dm st cur = Some (Fin dcur)"
    unfolding inv_fin_def by blast
  have s_in: "s \<in> insert cur ?V"
  proof (cases "s \<in> ?V")
    case False
    with sta obtain e0 where "st_pq st = [e0]" "nd e0 = s" unfolding inv_start_def by blast
    with cur show ?thesis by (simp add: heappop_single)
  qed simp
  have rank: "pos (?T @ [?a]) u < pos (?T @ [?a]) n"
    if "Pm st n = Some u" "n \<in> insert cur ?V" for n u
  proof (cases "n \<in> ?V")
    case True
    from prv that(1) have uV: "u \<in> ?V" unfolding inv_prev_def by blast
    from rk that(1) True have "pos ?T u < pos ?T n" unfolding inv_rank_def by blast
    with True uV V show ?thesis by (simp add: pos_append_old del: set_map)
  next
    case False
    with that have n: "n = cur" by simp
    from prv that(1) have uV: "u \<in> ?V" unfolding inv_prev_def by blast
    with V have "pos ?T u < length ?T" by (simp add: pos_less del: set_map)
    moreover have "pos (?T @ [?a]) cur = length ?T" using nv V ca by (simp add: pos_new del: set_map)
    ultimately show ?thesis using uV V n by (simp add: pos_append_old del: set_map)
  qed
  have "inv_trace ?st1" using tr nv ca by (simp add: inv_trace_def)
  moreover have "inv_start nd s ?st1" using sta s_in by (simp add: inv_start_def)
  moreover have "inv_prev adj ?st1" using prv unfolding inv_prev_def by simp
  moreover have "inv_reach s ?st1" using rch unfolding inv_reach_def by simp
  moreover have "inv_fin nd ?st1"
    using fin dcur heappop_rest [of lt "st_pq st"] unfolding inv_fin_def by auto
  moreover have "inv_dom s ns ?st1" using dm by (simp add: inv_dom_def)
  moreover have "inv_rank ?st1" using rank unfolding inv_rank_def by simp
  ultimately show ?thesis by (simp add: inv_basic_def)
qed

lemma inv_basic_upd:
  assumes inv: "inv_basic nd adj s ns st" and cv: "cur \<in> st_visited st"
    and a: "map_of adj cur = Some nbrs" and mem: "(n, w, ed) \<in> set nbrs"
    and nv: "n \<notin> st_visited st" and dc: "Dm st cur = Some dc" and dn: "Dm st n = Some dn"
    and nd: "nd item = n"
  shows "inv_basic nd adj s ns
           (st\<lparr>st_distances := AList.update n (fl_add dc w) (st_distances st),
               st_previous := AList.update n cur (st_previous st),
               st_pq := heappush (st_pq st) item\<rparr>)"
    (is "inv_basic _ _ _ _ ?st'")
proof -
  from inv have tr: "inv_trace st" and sta: "inv_start nd s st" and prv: "inv_prev adj st"
    and rch: "inv_reach s st" and fin: "inv_fin nd st" and dm: "inv_dom s ns st"
    and rk: "inv_rank st" by (simp_all add: inv_basic_def)
  from fin cv dc obtain du where du: "dc = Fin du" unfolding inv_fin_def by force
  from sta cv have sV: "s \<in> st_visited st" by (rule start_visited)
  with nv cv have ns: "n \<noteq> s" and nc: "n \<noteq> cur" by auto
  have arc: "arc adj cur n w" using a mem by (rule arcI)
  have D': "Dm ?st' = (Dm st)(n \<mapsto> Fin (du + w))" by (simp add: update_conv' du)
  have P': "Pm ?st' = (Pm st)(n \<mapsto> cur)" by (simp add: update_conv')
  have V': "st_visited ?st' = st_visited st" and T': "st_steps ?st' = st_steps st"
    and Q': "set (st_pq ?st') = insert item (set (st_pq st))" by (simp_all add: heappush_def)
  have "inv_trace ?st'" using tr by (simp add: inv_trace_def)
  moreover have "inv_start nd s ?st'"
    using sta sV ns unfolding inv_start_def D' P' V' by simp
  moreover have "inv_prev adj ?st'"
    unfolding inv_prev_def D' P' V'
  proof (intro allI impI)
    fix m u assume pm: "((Pm st)(n \<mapsto> cur)) m = Some u"
    show "u \<in> st_visited st \<and>
         (\<exists>du' w'. ((Dm st)(n \<mapsto> Fin (du + w))) u = Some (Fin du') \<and> arc adj u m w' \<and>
            ((Dm st)(n \<mapsto> Fin (du + w))) m = Some (Fin (du' + w')))"
    proof (cases "m = n")
      case True
      with pm have "u = cur" by simp
      with True cv nc dc du arc show ?thesis by auto
    next
      case False
      with pm have "Pm st m = Some u" by simp
      with prv obtain du' w' where "u \<in> st_visited st" "Dm st u = Some (Fin du')"
        "arc adj u m w'" "Dm st m = Some (Fin (du' + w'))" unfolding inv_prev_def by blast
      with False nv show ?thesis by auto
    qed
  qed
  moreover have "inv_reach s ?st'"
    using rch unfolding inv_reach_def D' P' by auto
  moreover have "inv_fin nd ?st'"
    using fin nd unfolding inv_fin_def D' Q' V' by auto
  moreover have "inv_dom s ns ?st'"
    using dm dn unfolding inv_dom_def D' by auto
  moreover have "inv_rank ?st'"
    using rk nv unfolding inv_rank_def P' V' T' by auto
  ultimately show ?thesis by (simp add: inv_basic_def)
qed

definition mk_ok :: "('e \<Rightarrow> string) \<Rightarrow> ('e \<Rightarrow> pyfloat) \<Rightarrow> (pyfloat \<Rightarrow> string \<Rightarrow> exn + 'e) \<Rightarrow> bool" where
  "mk_ok nd key mk \<longleftrightarrow> (\<forall>d n item. mk d n = Inr item \<longrightarrow> nd item = n \<and> key item = d)"

lemma inv_basic_relax:
  fixes st1 :: "'e search_state"
  assumes inv: "inv_basic nd adj s ns st1" and cv: "cur \<in> st_visited st1"
    and a: "map_of adj cur = Some nbrs"
    and run: "search_relax mk nbrs cur st1 = Inr st2"
    and mk: "mk_ok nd key mk"
  shows "inv_basic nd adj s ns st2"
proof -
  have "inv_basic nd adj s ns st2 \<and> cur \<in> st_visited st2"
  proof (rule search_relax_rule [OF run, where A = "set nbrs"
        and K = "\<lambda>st. inv_basic nd adj s ns st \<and> cur \<in> st_visited st"])
    show "inv_basic nd adj s ns st1 \<and> cur \<in> st_visited st1" using inv cv by simp
    show "set nbrs \<subseteq> set nbrs" by simp
    show "\<forall>(st :: 'e search_state) n w ed dc dn item.
       inv_basic nd adj s ns st \<and> cur \<in> st_visited st \<longrightarrow>
       (n, w, ed) \<in> set nbrs \<longrightarrow> n \<notin> st_visited st \<longrightarrow> Dm st cur = Some dc \<longrightarrow>
       Dm st n = Some dn \<longrightarrow> fl_less (fl_add dc w) dn \<longrightarrow> mk (fl_add dc w) n = Inr item \<longrightarrow>
       inv_basic nd adj s ns
        (st\<lparr>st_distances := AList.update n (fl_add dc w) (st_distances st),
              st_previous := AList.update n cur (st_previous st),
              st_pq := heappush (st_pq st) item\<rparr>) \<and>
       cur \<in> st_visited
        (st\<lparr>st_distances := AList.update n (fl_add dc w) (st_distances st),
              st_previous := AList.update n cur (st_previous st),
              st_pq := heappush (st_pq st) item\<rparr>)"
      using a mk by (auto simp: mk_ok_def intro!: inv_basic_upd)
  qed
  then show ?thesis by simp
qed

lemma search_loop_basic:
  fixes st :: "'e search_state"
  assumes run: "search_loop lt nd mk pl adj e st = Inr st'"
    and inv: "inv_basic nd adj s ns st"
    and mk: "mk_ok nd key mk"
  shows "inv_basic nd adj s ns st'"
proof -
  have "(st_pq st' = [] \<and> inv_basic nd adj s ns st') \<or>
        (inv_basic nd adj s ns st' \<and> e \<in> st_visited st')"
    by (rule search_loop_rule [OF run, where I = "inv_basic nd adj s ns"
        and J = "\<lambda>cur st. inv_basic nd adj s ns st \<and> cur \<in> st_visited st"])
      (use inv mk in \<open>auto intro: inv_basic_skip inv_basic_settle inv_basic_relax\<close>)
  then show ?thesis by blast
qed

section \<open>The square graph\<close>

definition square_edges :: "Edge list" where
  "square_edges =
     [\<lparr>from' = ''A'', to = ''B'', distance = 1, traffic = 0\<rparr>,
      \<lparr>from' = ''B'', to = ''C'', distance = 1, traffic = 0\<rparr>,
      \<lparr>from' = ''C'', to = ''D'', distance = 1, traffic = 0\<rparr>,
      \<lparr>from' = ''A'', to = ''D'', distance = 5, traffic = 0\<rparr>]"

definition square_request :: RouteRequest where
  "square_request =
     \<lparr>RouteRequest.nodes = [''A'', ''B'', ''C'', ''D''], RouteRequest.edges = square_edges,
      start = ''A'', end' = ''D'', algorithm = ''dijkstra'', weightType = ''distance'',
      nodePositions = []\<rparr>"

text \<open>The enumeration of a set in increasing order: one of the orders \<^verbatim>\<open>list(visited)\<close> can
  take, used where a concrete one is needed.\<close>

definition sorted_order :: "string set \<Rightarrow> string list" where
  "sorted_order = sorted_list_of_set"

lemmas eval_defs =
  calculate_route_def Graph_init_def build_adjacency_list_def get_weight_def Let_def
  dijkstra_def astar_def heuristic_def init_distances_def dijkstra_loop.simps astar_loop.simps
  heappop_def heappush_def snapshot_def reconstruct.simps py_round2_def render_def

text \<open>
  C6. On the square graph A-B (1, 0), B-C (1, 0), C-D (1, 0), A-D (5, 0), with weight type
  \<open>distance\<close> and algorithm \<open>dijkstra\<close> from A to D, \<open>calculate_route\<close> returns the path
  A, B, C, D with total distance 3 and total traffic 0, whatever the enumeration order of
  sets.
\<close>

theorem square_route:
  "\<exists>stps. calculate_route pl square_request =
     Some (Inr \<lparr>success = True, message = None, path = [''A'', ''B'', ''C'', ''D''],
                steps = stps, totalDistance = 3, totalTraffic = 0\<rparr>)"
  by (simp add: square_request_def square_edges_def eval_defs)

theorem square_route_witness:
  "\<exists>stps. calculate_route sorted_order square_request =
     Some (Inr \<lparr>success = True, message = None, path = [''A'', ''B'', ''C'', ''D''],
                steps = stps, totalDistance = 3, totalTraffic = 0\<rparr>)"
  using square_route [of sorted_order] .

section \<open>The invariant of the trace\<close>

definition snap_ok :: "adjacency \<Rightarrow> string \<Rightarrow> string list \<Rightarrow> PathStep \<Rightarrow> bool" where
  "snap_ok adj s ns a \<longleftrightarrow>
     fst ` set (distances a) = insert s (set ns) \<and>
     map_of (distances a) s = Some 0 \<and>
     (\<forall>n \<in> insert s (set ns). n \<noteq> s \<and> map_of (previous a) n = None \<longrightarrow>
        map_of (distances a) n = Some 999999) \<and>
     (\<forall>n u. map_of (previous a) n = Some u \<longrightarrow>
        (\<exists>du w. map_of (distances a) u = Some du \<and> arc adj u n w \<and>
                 map_of (distances a) n = Some (du + w)))"

definition settled_at :: "PathStep list \<Rightarrow> nat \<Rightarrow> string set" where
  "settled_at T k = set (map current (take (Suc k) T))"

definition later_ok :: "string \<Rightarrow> PathStep \<Rightarrow> string set \<Rightarrow> (string \<Rightarrow> real option) \<Rightarrow> bool" where
  "later_ok s a S d' \<longleftrightarrow>
     (\<forall>n. (n = s \<or> map_of (previous a) n \<noteq> None \<longrightarrow>
            (\<exists>c c'. map_of (distances a) n = Some c \<and> d' n = Some c' \<and> c' \<le> c)) \<and>
          (n \<in> S \<longrightarrow> d' n = map_of (distances a) n))"

definition inv_steps ::
  "(string set \<Rightarrow> string list) \<Rightarrow> adjacency \<Rightarrow> string \<Rightarrow> string list \<Rightarrow> 'e search_state \<Rightarrow> bool" where
  "inv_steps pl adj s ns st \<longleftrightarrow>
     (\<forall>k < length (st_steps st). visited (st_steps st ! k) = pl (settled_at (st_steps st) k)) \<and>
     (\<forall>a \<in> set (st_steps st). snap_ok adj s ns a) \<and>
     (\<forall>k < length (st_steps st). \<forall>n.
        (n = s \<or> map_of (previous (st_steps st ! k)) n \<noteq> None \<longrightarrow>
           (\<exists>c d. map_of (distances (st_steps st ! k)) n = Some c \<and>
                  Dm st n = Some (Fin d) \<and> d \<le> c)) \<and>
        (n \<in> settled_at (st_steps st) k \<longrightarrow>
           map_of (distances (st_steps st ! k)) n = map_option render (Dm st n))) \<and>
     (\<forall>i j. i < j \<longrightarrow> j < length (st_steps st) \<longrightarrow>
        later_ok s (st_steps st ! i) (settled_at (st_steps st) i)
          (map_of (distances (st_steps st ! j))))"

lemma settled_at_append: "k < length T \<Longrightarrow> settled_at (T @ [a]) k = settled_at T k"
  by (simp add: settled_at_def)

lemma settled_at_last: "settled_at (T @ [a]) (length T) = insert (current a) (set (map current T))"
  by (simp add: settled_at_def)

lemma settled_at_subset: "settled_at T k \<subseteq> set (map current T)"
  unfolding settled_at_def by (auto dest: in_set_takeD)

lemma map_of_render:
  "map_of (map (\<lambda>(k, v). (k, render v)) al) n = map_option render (map_of al n)"
  by (induction al) auto

lemma snapshot_sel [simp]:
  "current (snapshot pl cur vis dists prev) = cur"
  "visited (snapshot pl cur vis dists prev) = pl vis"
  "map_of (distances (snapshot pl cur vis dists prev)) n = map_option render (map_of dists n)"
  "previous (snapshot pl cur vis dists prev) = prev"
  by (simp_all add: snapshot_def map_of_render)

lemma inv_steps_init:
  "inv_steps pl adj s ns
     \<lparr>st_distances = ds, st_previous = ps, st_visited = {}, st_steps = [], st_pq = q\<rparr>"
  by (simp add: inv_steps_def)

lemma inv_steps_pq [simp]: "inv_steps pl adj s ns (st\<lparr>st_pq := q\<rparr>) = inv_steps pl adj s ns st"
  by (simp add: inv_steps_def)

lemma snap_ok_new:
  assumes inv: "inv_basic nd adj s ns st"
  shows "snap_ok adj s ns (snapshot pl cur vis (st_distances st) (st_previous st))"
proof -
  from inv have sta: "inv_start nd s st" and prv: "inv_prev adj st"
    and rch: "inv_reach s st" and dm: "inv_dom s ns st" by (simp_all add: inv_basic_def)
  have 1: "map_option render (Dm st s) = Some 0"
    using sta by (simp add: inv_start_def render_def)
  have 2: "map_option render (Dm st n) = Some 999999"
    if "n \<in> insert s (set ns)" "n \<noteq> s" "Pm st n = None" for n
  proof -
    from dm that(1) obtain v where v: "Dm st n = Some v" unfolding inv_dom_def by blast
    with rch that(2,3) have "v = Infinity" unfolding inv_reach_def by (cases v) auto
    with v show ?thesis by (simp add: render_def)
  qed
  have 3: "\<exists>du w. map_option render (Dm st u) = Some du \<and> arc adj u n w \<and>
                 map_option render (Dm st n) = Some (du + w)"
    if "Pm st n = Some u" for n u
  proof -
    from prv that obtain du w where "Dm st u = Some (Fin du)" "arc adj u n w"
      "Dm st n = Some (Fin (du + w))" unfolding inv_prev_def by blast
    then show ?thesis by (auto simp: render_def)
  qed
  have "fst ` set (map (\<lambda>(k, v). (k, render v)) (st_distances st)) = fst ` set (st_distances st)"
    by force
  with dm have 0: "fst ` set (distances (snapshot pl cur vis (st_distances st) (st_previous st))) =
      insert s (set ns)"
    by (simp add: snapshot_def inv_dom_def dom_map_of_conv_image_fst)
  show ?thesis unfolding snap_ok_def snapshot_sel using 0 1 2 3 by blast
qed

lemma inv_steps_settle:
  assumes inv: "inv_basic nd adj s ns st" and stp: "inv_steps pl adj s ns st"
  shows "inv_steps pl adj s ns (st\<lparr>st_pq := q,
                 st_visited := insert cur (st_visited st),
                 st_steps := st_steps st @
                   [snapshot pl cur (insert cur (st_visited st)) (st_distances st) (st_previous st)]\<rparr>)"
    (is "inv_steps _ _ _ _ ?st1")
proof -
  let ?T = "st_steps st"
  let ?a = "snapshot pl cur (insert cur (st_visited st)) (st_distances st) (st_previous st)"
  let ?T' = "?T @ [?a]"
  from inv have tr: "inv_trace st" and sta: "inv_start nd s st" and prv: "inv_prev adj st"
    by (simp_all add: inv_basic_def)
  from tr have V: "st_visited st = set (map current ?T)" by (simp add: inv_trace_def)
  from stp have
    s1: "\<And>k. k < length ?T \<Longrightarrow> visited (?T ! k) = pl (settled_at ?T k)" and
    s2: "\<And>a. a \<in> set ?T \<Longrightarrow> snap_ok adj s ns a" and
    s3: "\<And>k n. k < length ?T \<Longrightarrow>
        (n = s \<or> map_of (previous (?T ! k)) n \<noteq> None \<longrightarrow>
           (\<exists>c d. map_of (distances (?T ! k)) n = Some c \<and> Dm st n = Some (Fin d) \<and> d \<le> c)) \<and>
        (n \<in> settled_at ?T k \<longrightarrow> map_of (distances (?T ! k)) n = map_option render (Dm st n))" and
    s4: "\<And>i j. i < j \<Longrightarrow> j < length ?T \<Longrightarrow>
        later_ok s (?T ! i) (settled_at ?T i) (map_of (distances (?T ! j)))"
    unfolding inv_steps_def by blast+
  have n3: "(n = s \<or> map_of (previous ?a) n \<noteq> None \<longrightarrow>
           (\<exists>c d. map_of (distances ?a) n = Some c \<and> Dm st n = Some (Fin d) \<and> d \<le> c)) \<and>
        (n \<in> settled_at ?T' (length ?T) \<longrightarrow> map_of (distances ?a) n = map_option render (Dm st n))"
    for n
  proof -
    have "\<exists>d. Dm st n = Some (Fin d)" if "n = s \<or> Pm st n \<noteq> None"
      using that sta prv unfolding inv_start_def inv_prev_def by blast
    then show ?thesis by (auto simp: render_def)
  qed
  have p1: "\<forall>k < length ?T'. visited (?T' ! k) = pl (settled_at ?T' k)"
  proof (intro allI impI)
    fix k assume "k < length ?T'"
    then consider "k < length ?T" | "k = length ?T" by fastforce
    then show "visited (?T' ! k) = pl (settled_at ?T' k)"
    proof cases
      case 1
      then show ?thesis using s1 [OF 1] by (simp add: nth_append settled_at_append)
    next
      case 2
      then show ?thesis using V by (simp add: settled_at_last)
    qed
  qed
  have p2: "\<forall>a \<in> set ?T'. snap_ok adj s ns a"
    using s2 snap_ok_new [OF inv] by auto
  have p3: "\<forall>k < length ?T'. \<forall>n.
        (n = s \<or> map_of (previous (?T' ! k)) n \<noteq> None \<longrightarrow>
           (\<exists>c d. map_of (distances (?T' ! k)) n = Some c \<and> Dm st n = Some (Fin d) \<and> d \<le> c)) \<and>
        (n \<in> settled_at ?T' k \<longrightarrow> map_of (distances (?T' ! k)) n = map_option render (Dm st n))"
  proof (intro allI impI)
    fix k n assume "k < length ?T'"
    then consider "k < length ?T" | "k = length ?T" by fastforce
    then show "(n = s \<or> map_of (previous (?T' ! k)) n \<noteq> None \<longrightarrow>
           (\<exists>c d. map_of (distances (?T' ! k)) n = Some c \<and> Dm st n = Some (Fin d) \<and> d \<le> c)) \<and>
        (n \<in> settled_at ?T' k \<longrightarrow> map_of (distances (?T' ! k)) n = map_option render (Dm st n))"
    proof cases
      case 1
      then show ?thesis using s3 [OF 1, of n] by (simp add: nth_append settled_at_append)
    next
      case 2
      then show ?thesis using n3 [of n] by simp
    qed
  qed
  have p4: "\<forall>i j. i < j \<longrightarrow> j < length ?T' \<longrightarrow>
        later_ok s (?T' ! i) (settled_at ?T' i) (map_of (distances (?T' ! j)))"
  proof (intro allI impI)
    fix i j :: nat assume ij: "i < j" and "j < length ?T'"
    then consider "j < length ?T" | "j = length ?T" by fastforce
    then show "later_ok s (?T' ! i) (settled_at ?T' i) (map_of (distances (?T' ! j)))"
    proof cases
      case 1
      with ij have i: "i < length ?T" by simp
      show ?thesis using s4 [OF ij 1] 1 i by (simp add: nth_append settled_at_append)
    next
      case 2
      with ij have i: "i < length ?T" by simp
      have "later_ok s (?T ! i) (settled_at ?T i) (map_of (distances ?a))"
        unfolding later_ok_def
      proof (intro allI conjI impI)
        fix n assume "n = s \<or> map_of (previous (?T ! i)) n \<noteq> None"
        with s3 [OF i, of n] obtain c d where "map_of (distances (?T ! i)) n = Some c"
          "Dm st n = Some (Fin d)" "d \<le> c" by blast
        then show "\<exists>c c'. map_of (distances (?T ! i)) n = Some c \<and>
            map_of (distances ?a) n = Some c' \<and> c' \<le> c"
          by (simp add: render_def)
      next
        fix n assume "n \<in> settled_at ?T i"
        with s3 [OF i, of n] show "map_of (distances ?a) n = map_of (distances (?T ! i)) n"
          by simp
      qed
      with 2 i show ?thesis by (simp add: nth_append settled_at_append)
    qed
  qed
  show ?thesis
    unfolding inv_steps_def using p1 p2 p3 p4 by simp
qed

lemma fl_less_Fin: "fl_less (Fin a) v \<Longrightarrow> v = Fin b \<Longrightarrow> a < b"
  by simp

lemma inv_steps_upd:
  assumes inv: "inv_basic nd adj s ns st" and stp: "inv_steps pl adj s ns st"
    and cv: "cur \<in> st_visited st" and nv: "n \<notin> st_visited st"
    and dc: "Dm st cur = Some dc" and dn: "Dm st n = Some dn"
    and less: "fl_less (fl_add dc w) dn"
  shows "inv_steps pl adj s ns
           (st\<lparr>st_distances := AList.update n (fl_add dc w) (st_distances st),
               st_previous := AList.update n cur (st_previous st)\<rparr>)"
proof -
  let ?T = "st_steps st"
  from inv have tr: "inv_trace st" and fin: "inv_fin nd st" by (simp_all add: inv_basic_def)
  from tr have V: "st_visited st = set (map current ?T)" by (simp add: inv_trace_def)
  from fin cv dc obtain du where du: "dc = Fin du" unfolding inv_fin_def by force
  from stp have
    s3: "\<And>k m. k < length ?T \<Longrightarrow>
        (m = s \<or> map_of (previous (?T ! k)) m \<noteq> None \<longrightarrow>
           (\<exists>c d. map_of (distances (?T ! k)) m = Some c \<and> Dm st m = Some (Fin d) \<and> d \<le> c)) \<and>
        (m \<in> settled_at ?T k \<longrightarrow> map_of (distances (?T ! k)) m = map_option render (Dm st m))"
    unfolding inv_steps_def by blast
  have new: "(m = s \<or> map_of (previous (?T ! k)) m \<noteq> None \<longrightarrow>
           (\<exists>c d. map_of (distances (?T ! k)) m = Some c \<and>
              ((Dm st)(n \<mapsto> Fin (du + w))) m = Some (Fin d) \<and> d \<le> c)) \<and>
        (m \<in> settled_at ?T k \<longrightarrow>
           map_of (distances (?T ! k)) m = map_option render (((Dm st)(n \<mapsto> Fin (du + w))) m))"
    if k: "k < length ?T" for k m
  proof (cases "m = n")
    case False
    then show ?thesis using s3 [OF k, of m] by simp
  next
    case True
    have a: "m \<notin> settled_at ?T k" using True nv V settled_at_subset [of ?T k] by auto
    have b: "\<exists>c d. map_of (distances (?T ! k)) m = Some c \<and>
              ((Dm st)(n \<mapsto> Fin (du + w))) m = Some (Fin d) \<and> d \<le> c"
      if "m = s \<or> map_of (previous (?T ! k)) m \<noteq> None"
    proof -
      from s3 [OF k, of m] that obtain c d where c: "map_of (distances (?T ! k)) m = Some c"
        "Dm st m = Some (Fin d)" "d \<le> c" by blast
      with dn True have "dn = Fin d" by simp
      with less du have "du + w < d" by simp
      with c True show ?thesis by auto
    qed
    from a b show ?thesis by blast
  qed
  show ?thesis
    using stp new unfolding inv_steps_def by (simp add: update_conv' du)
qed

section \<open>Both searches keep the invariants and return\<close>

lemma search_loop_steps:
  fixes st :: "'e search_state"
  assumes run: "search_loop lt nd mk pl adj e st = Inr st'"
    and inv: "inv_basic nd adj s ns st" and stp: "inv_steps pl adj s ns st"
    and mk: "mk_ok nd key mk"
  shows "inv_basic nd adj s ns st' \<and> inv_steps pl adj s ns st'"
proof -
  let ?I = "\<lambda>st :: 'e search_state. inv_basic nd adj s ns st \<and> inv_steps pl adj s ns st"
  let ?J = "\<lambda>cur (st :: 'e search_state). ?I st \<and> cur \<in> st_visited st"
  have relax: "?I st2" if J: "?J cur st1" and a: "map_of adj cur = Some nbrs"
    and r: "search_relax mk nbrs cur st1 = Inr st2" for st1 st2 :: "'e search_state" and cur nbrs
  proof -
    have "?J cur st2"
      by (rule search_relax_rule [OF r, where A = "set nbrs" and K = "?J cur"])
         (use J a mk in \<open>auto simp: mk_ok_def intro!: inv_basic_upd inv_steps_upd\<close>)
    then show ?thesis by simp
  qed
  have "(st_pq st' = [] \<and> ?I st') \<or> ?J e st'"
  proof (rule search_loop_rule [OF run, where I = ?I and J = ?J])
    show "?I st" using inv stp by simp
    show "\<forall>st :: 'e search_state. ?I st \<longrightarrow> st_pq st \<noteq> [] \<longrightarrow>
       nd (fst (heappop lt (st_pq st))) \<in> st_visited st \<longrightarrow>
       ?I (st\<lparr>st_pq := snd (heappop lt (st_pq st))\<rparr>)"
      by (simp add: inv_basic_skip)
    show "\<forall>(st :: 'e search_state) cur. ?I st \<longrightarrow> st_pq st \<noteq> [] \<longrightarrow>
       cur = nd (fst (heappop lt (st_pq st))) \<longrightarrow> cur \<notin> st_visited st \<longrightarrow>
       ?J cur (st\<lparr>st_pq := snd (heappop lt (st_pq st)),
                 st_visited := insert cur (st_visited st),
                 st_steps := st_steps st @
                   [snapshot pl cur (insert cur (st_visited st)) (st_distances st) (st_previous st)]\<rparr>)"
    proof (intro allI impI conjI)
      fix st :: "'e search_state" and cur
      assume a: "?I st" "st_pq st \<noteq> []" "cur = nd (fst (heappop lt (st_pq st)))"
        "cur \<notin> st_visited st"
      from a show "inv_basic nd adj s ns (st\<lparr>st_pq := snd (heappop lt (st_pq st)),
                 st_visited := insert cur (st_visited st),
                 st_steps := st_steps st @
                   [snapshot pl cur (insert cur (st_visited st)) (st_distances st) (st_previous st)]\<rparr>)"
        by (intro inv_basic_settle) simp_all
      from a show "inv_steps pl adj s ns (st\<lparr>st_pq := snd (heappop lt (st_pq st)),
                 st_visited := insert cur (st_visited st),
                 st_steps := st_steps st @
                   [snapshot pl cur (insert cur (st_visited st)) (st_distances st) (st_previous st)]\<rparr>)"
        by (intro inv_steps_settle [where nd = nd]) simp_all
      show "cur \<in> st_visited (st\<lparr>st_pq := snd (heappop lt (st_pq st)),
                 st_visited := insert cur (st_visited st),
                 st_steps := st_steps st @
                   [snapshot pl cur (insert cur (st_visited st)) (st_distances st) (st_previous st)]\<rparr>)"
        by simp
    qed
    show "\<forall>(st1 :: 'e search_state) cur nbrs st2. ?J cur st1 \<longrightarrow> cur \<noteq> e \<longrightarrow>
       map_of adj cur = Some nbrs \<longrightarrow> search_relax mk nbrs cur st1 = Inr st2 \<longrightarrow> ?I st2"
      using relax by blast
  qed
  then show ?thesis by blast
qed

lemma mk_ok_dijkstra: "mk_ok snd fst dijkstra_mk"
  by (simp add: mk_ok_def dijkstra_mk_def)

lemma mk_ok_astar: "mk_ok (\<lambda>t. snd (snd t)) (\<lambda>t. fst (snd t)) (astar_mk np e)"
  by (auto simp: mk_ok_def astar_mk_def split: sum.splits)

definition dijkstra_init :: "Graph \<Rightarrow> string \<Rightarrow> dentry search_state" where
  "dijkstra_init g s =
     \<lparr>st_distances = init_distances (Graph.nodes g) s, st_previous = [],
      st_visited = {}, st_steps = [], st_pq = [(Fin 0, s)]\<rparr>"

definition astar_init :: "Graph \<Rightarrow> string \<Rightarrow> real \<Rightarrow> aentry search_state" where
  "astar_init g s h =
     \<lparr>st_distances = init_distances (Graph.nodes g) s, st_previous = [],
      st_visited = {}, st_steps = [], st_pq = [(Fin h, Fin 0, s)]\<rparr>"

lemma dijkstra_final:
  assumes "dijkstra_loop pl (adj_list g) e (dijkstra_init g s) = Inr st'"
  shows "inv_basic snd (adj_list g) s (Graph.nodes g) st' \<and>
         inv_steps pl (adj_list g) s (Graph.nodes g) st'"
  using assms unfolding dijkstra_loop_eq dijkstra_init_def
  by (rule search_loop_steps [OF _ inv_basic_init inv_steps_init mk_ok_dijkstra]) simp

lemma astar_final:
  assumes "astar_loop pl (adj_list g) np e (astar_init g s h) = Inr st'"
  shows "inv_basic (\<lambda>t. snd (snd t)) (adj_list g) s (Graph.nodes g) st' \<and>
         inv_steps pl (adj_list g) s (Graph.nodes g) st'"
  using assms unfolding astar_loop_eq astar_init_def
  by (rule search_loop_steps [OF _ inv_basic_init inv_steps_init mk_ok_astar]) simp

text \<open>Termination of the path reconstruction on the predecessor table of a search.\<close>

lemma reconstruct_visited:
  assumes prv: "inv_prev adj st" and rk: "inv_rank st" and tr: "inv_trace st"
  shows "c \<in> st_visited st \<Longrightarrow> \<exists>p. reconstruct (st_previous st) (Some c) acc = Some p"
proof (induction "pos (st_steps st) c" arbitrary: c acc rule: less_induct)
  case less
  show ?case
  proof (cases "c = [] \<or> Pm st c = None")
    case True
    then show ?thesis by (auto simp: reconstruct.simps)
  next
    case False
    then obtain u where u: "Pm st c = Some u" and ne: "c \<noteq> []" by auto
    from prv u have uV: "u \<in> st_visited st" unfolding inv_prev_def by blast
    from rk u less.prems have "pos (st_steps st) u < pos (st_steps st) c"
      unfolding inv_rank_def by blast
    from less.hyps [OF this uV, of "c # acc"] obtain p where
      "reconstruct (st_previous st) (Some u) (c # acc) = Some p" by blast
    with u ne show ?thesis by (subst reconstruct.simps) simp
  qed
qed

lemma reconstruct_terminates:
  assumes inv: "inv_basic nd adj s ns st"
  shows "\<exists>p. reconstruct (st_previous st) (Some c) acc = Some p"
proof (cases "c = [] \<or> Pm st c = None")
  case True
  then show ?thesis by (auto simp: reconstruct.simps)
next
  case False
  then obtain u where u: "Pm st c = Some u" and ne: "c \<noteq> []" by auto
  from inv have prv: "inv_prev adj st" and rk: "inv_rank st" and tr: "inv_trace st"
    by (simp_all add: inv_basic_def)
  from prv u have uV: "u \<in> st_visited st" unfolding inv_prev_def by blast
  from reconstruct_visited [OF prv rk tr uV, of "c # acc"] obtain p where
    "reconstruct (st_previous st) (Some u) (c # acc) = Some p" by blast
  with u ne show ?thesis by (subst reconstruct.simps) simp
qed

lemma dijkstra_returns: "\<exists>r. dijkstra pl g s e = Some r"
proof (cases "dijkstra_loop pl (adj_list g) e (dijkstra_init g s)")
  case (Inl ex)
  then show ?thesis by (simp add: dijkstra_def dijkstra_init_def)
next
  case (Inr st')
  from dijkstra_final [OF Inr] reconstruct_terminates [of snd "adj_list g" s "Graph.nodes g" st' e "[]"]
  obtain p where "reconstruct (st_previous st') (Some e) [] = Some p" by blast
  with Inr show ?thesis by (auto simp: dijkstra_def dijkstra_init_def)
qed

lemma astar_returns: "\<exists>r. astar pl g s e np = Some r"
proof (cases "heuristic np e s")
  case (Inl ex)
  then show ?thesis by (simp add: astar_def)
next
  case h: (Inr h)
  show ?thesis
  proof (cases "astar_loop pl (adj_list g) np e (astar_init g s h)")
    case (Inl ex)
    with h show ?thesis by (simp add: astar_def astar_init_def)
  next
    case (Inr st')
    from astar_final [OF Inr]
      reconstruct_terminates [of "\<lambda>t. snd (snd t)" "adj_list g" s "Graph.nodes g" st' e "[]"]
    obtain p where "reconstruct (st_previous st') (Some e) [] = Some p" by blast
    with Inr h show ?thesis by (auto simp: astar_def astar_init_def)
  qed
qed

lemma dijkstra_steps:
  assumes "dijkstra pl g s e = Some (Inr (p, T))"
  obtains st' where "dijkstra_loop pl (adj_list g) e (dijkstra_init g s) = Inr st'"
    and "st_steps st' = T"
    and "inv_basic snd (adj_list g) s (Graph.nodes g) st'"
    and "inv_steps pl (adj_list g) s (Graph.nodes g) st'"
proof (cases "dijkstra_loop pl (adj_list g) e (dijkstra_init g s)")
  case (Inl ex)
  with assms show ?thesis by (simp add: dijkstra_def dijkstra_init_def)
next
  case (Inr st')
  with assms have "st_steps st' = T"
    by (auto simp: dijkstra_def dijkstra_init_def split: if_splits)
  with that Inr dijkstra_final [OF Inr] show ?thesis by blast
qed

lemma astar_steps:
  assumes "astar pl g s e np = Some (Inr (p, T))"
  obtains st' h where "heuristic np e s = Inr h"
    and "astar_loop pl (adj_list g) np e (astar_init g s h) = Inr st'"
    and "st_steps st' = T"
    and "inv_basic (\<lambda>t. snd (snd t)) (adj_list g) s (Graph.nodes g) st'"
    and "inv_steps pl (adj_list g) s (Graph.nodes g) st'"
proof (cases "heuristic np e s")
  case (Inl ex)
  with assms show ?thesis by (simp add: astar_def)
next
  case h: (Inr h)
  show ?thesis
  proof (cases "astar_loop pl (adj_list g) np e (astar_init g s h)")
    case (Inl ex)
    with assms h show ?thesis by (simp add: astar_def astar_init_def)
  next
    case (Inr st')
    with assms h have "st_steps st' = T"
      by (auto simp: astar_def astar_init_def split: if_splits)
    with that h Inr astar_final [OF Inr] show ?thesis by blast
  qed
qed

section \<open>Properties of the trace\<close>

definition steps_of :: "(exn + string list \<times> PathStep list) option \<Rightarrow> PathStep list" where
  "steps_of r = (case r of Some (Inr (p, T)) \<Rightarrow> T | _ \<Rightarrow> [])"

definition path_of :: "(exn + string list \<times> PathStep list) option \<Rightarrow> string list" where
  "path_of r = (case r of Some (Inr (p, T)) \<Rightarrow> p | _ \<Rightarrow> [])"

lemma run_cases:
  assumes "dijkstra pl g s e = Some (Inr (p, T)) \<or> astar pl g s e np = Some (Inr (p, T))"
  obtains (dijkstra) st' :: "dentry search_state" where "st_steps st' = T"
    "inv_basic snd (adj_list g) s (Graph.nodes g) st'"
    "inv_steps pl (adj_list g) s (Graph.nodes g) st'"
  | (astar) st' :: "aentry search_state" where "st_steps st' = T"
    "inv_basic (\<lambda>t. snd (snd t)) (adj_list g) s (Graph.nodes g) st'"
    "inv_steps pl (adj_list g) s (Graph.nodes g) st'"
  using assms by (elim disjE dijkstra_steps astar_steps) blast+

lemma trace_bound:
  assumes inv: "inv_basic nd adj s ns st"
  shows "distinct (map current (st_steps st)) \<and>
         set (map current (st_steps st)) \<subseteq> insert s (set ns) \<and>
         length (st_steps st) \<le> card (insert s (set ns))"
proof -
  from inv have tr: "inv_trace st" and fin: "inv_fin nd st" and dm: "inv_dom s ns st"
    by (simp_all add: inv_basic_def)
  from tr have d: "distinct (map current (st_steps st))"
    and V: "st_visited st = set (map current (st_steps st))" by (simp_all add: inv_trace_def)
  from fin dm have "st_visited st \<subseteq> insert s (set ns)"
    unfolding inv_fin_def inv_dom_def by (metis domI subsetI)
  with V have sub: "set (map current (st_steps st)) \<subseteq> insert s (set ns)" by simp
  have "length (st_steps st) = card (set (map current (st_steps st)))"
    using d by (metis distinct_card length_map)
  also have "\<dots> \<le> card (insert s (set ns))" using sub by (intro card_mono) auto
  finally show ?thesis using d sub by blast
qed

text \<open>
  C9, as amended. Both searches return, and in the trace of a run that returns a path and a
  trace each node is the current node of at most one snapshot (a popped entry whose node is
  already settled adds none). The current nodes are among the declared nodes and the start
  node, which the search never looks up in the node list. So the trace is no longer than the
  number of declared nodes with the start node counted in, and no longer than the number of
  declared nodes when the start node is one of them.
\<close>

theorem each_node_settled_once:
  "(\<exists>r. dijkstra pl g s e = Some r) \<and> (\<exists>r. astar pl g s e np = Some r) \<and>
   (\<forall>p T. dijkstra pl g s e = Some (Inr (p, T)) \<or> astar pl g s e np = Some (Inr (p, T)) \<longrightarrow>
      distinct (map current T) \<and>
      set (map current T) \<subseteq> insert s (set (Graph.nodes g)) \<and>
      length T \<le> card (insert s (set (Graph.nodes g))) \<and>
      (s \<in> set (Graph.nodes g) \<longrightarrow> length T \<le> card (set (Graph.nodes g))))"
proof (intro conjI allI impI)
  show "\<exists>r. dijkstra pl g s e = Some r" by (rule dijkstra_returns)
  show "\<exists>r. astar pl g s e np = Some r" by (rule astar_returns)
next
  fix p T
  assume run: "dijkstra pl g s e = Some (Inr (p, T)) \<or> astar pl g s e np = Some (Inr (p, T))"
  then have b: "distinct (map current T) \<and> set (map current T) \<subseteq> insert s (set (Graph.nodes g)) \<and>
      length T \<le> card (insert s (set (Graph.nodes g)))"
    by (cases rule: run_cases) (use trace_bound in blast)+
  from b show "distinct (map current T)" by simp
  from b show "set (map current T) \<subseteq> insert s (set (Graph.nodes g))" by simp
  from b show "length T \<le> card (insert s (set (Graph.nodes g)))" by simp
  assume "s \<in> set (Graph.nodes g)"
  with b show "length T \<le> card (set (Graph.nodes g))" by (simp add: insert_absorb)
qed

text \<open>
  C4, as amended. Let the enumeration \<open>pl\<close> of a set list each of its elements once. Then in
  every snapshot of a run of either search the visited list is \<open>pl\<close> of the set of the nodes
  settled so far (the current nodes of the snapshots up to and including this one): it holds
  exactly these nodes, each once, and the set of the next snapshot's list is this one's with
  the next settled node added. The order of the list is that of \<open>pl\<close>, not the settlement
  order.
\<close>

theorem visited_lists_enumerate_settled:
  assumes pl: "\<forall>S. finite S \<longrightarrow> set (pl S) = S \<and> distinct (pl S)"
    and run: "dijkstra pl g s e = Some (Inr (p, T)) \<or> astar pl g s e np = Some (Inr (p, T))"
    and k: "k < length T"
  shows "visited (T ! k) = pl (set (map current (take (Suc k) T))) \<and>
         set (visited (T ! k)) = set (map current (take (Suc k) T)) \<and>
         distinct (visited (T ! k)) \<and>
         (Suc k < length T \<longrightarrow>
            set (visited (T ! Suc k)) = insert (current (T ! Suc k)) (set (visited (T ! k))))"
proof -
  have v: "visited (T ! j) = pl (set (map current (take (Suc j) T)))" if "j < length T" for j
    using run
  proof (cases rule: run_cases)
    case (dijkstra st')
    with that show ?thesis unfolding inv_steps_def settled_at_def by blast
  next
    case (astar st')
    with that show ?thesis unfolding inv_steps_def settled_at_def by blast
  qed
  have f: "finite (set (map current (take (Suc j) T)))" for j by simp
  have s: "set (visited (T ! j)) = set (map current (take (Suc j) T))" if "j < length T" for j
    using v [OF that] pl f [of j] by metis
  have d: "distinct (visited (T ! k))" using v [OF k] pl f [of k] by metis
  have "set (visited (T ! Suc k)) = insert (current (T ! Suc k)) (set (visited (T ! k)))"
    if sk: "Suc k < length T"
  proof -
    have "take (Suc (Suc k)) T = take (Suc k) T @ [T ! Suc k]"
      using sk by (rule take_Suc_conv_app_nth)
    then show ?thesis using s [OF sk] s [OF k] by simp
  qed
  with v [OF k] s [OF k] d show ?thesis by blast
qed


text \<open>
  C10, as amended. For two snapshots \<open>i < j\<close> of a run of either search: a node reached in
  snapshot \<open>i\<close> (the start, or a node with a predecessor entry there) has in snapshot \<open>j\<close> a
  recorded cost no larger than in snapshot \<open>i\<close>, and a node settled by snapshot \<open>i\<close> has the
  same recorded cost in both. Nothing is said of the step from the sentinel of an unreached
  node to its first cost.
\<close>

theorem recorded_costs_monotone:
  assumes run: "dijkstra pl g s e = Some (Inr (p, T)) \<or> astar pl g s e np = Some (Inr (p, T))"
    and ij: "i < j" and j: "j < length T"
  shows "(n = s \<or> map_of (previous (T ! i)) n \<noteq> None \<longrightarrow>
            (\<exists>c c'. map_of (distances (T ! i)) n = Some c \<and>
                     map_of (distances (T ! j)) n = Some c' \<and> c' \<le> c)) \<and>
         (n \<in> set (map current (take (Suc i) T)) \<longrightarrow>
            map_of (distances (T ! j)) n = map_of (distances (T ! i)) n)"
proof -
  have "later_ok s (T ! i) (settled_at T i) (map_of (distances (T ! j)))"
    using run
  proof (cases rule: run_cases)
    case (dijkstra st')
    with ij j show ?thesis unfolding inv_steps_def by blast
  next
    case (astar st')
    with ij j show ?thesis unfolding inv_steps_def by blast
  qed
  then show ?thesis unfolding later_ok_def settled_at_def by blast
qed

definition square_graph :: Graph where
  "square_graph =
     \<lparr>nodes = [''A'', ''B'', ''C'', ''D''], edges = square_edges, weight_type = ''distance'',
      adj_list = [(''A'', [(''B'', 1, square_edges ! 0), (''D'', 5, square_edges ! 3)]),
                  (''B'', [(''A'', 1, square_edges ! 0), (''C'', 1, square_edges ! 1)]),
                  (''C'', [(''B'', 1, square_edges ! 1), (''D'', 1, square_edges ! 2)]),
                  (''D'', [(''C'', 1, square_edges ! 2), (''A'', 5, square_edges ! 3)])]\<rparr>"


definition line_positions :: "(string \<times> NodePosition) list" where
  "line_positions =
     [(''A'', \<lparr>pos_x = 1, pos_y = 0\<rparr>), (''B'', \<lparr>pos_x = 1, pos_y = 0\<rparr>),
      (''C'', \<lparr>pos_x = 0, pos_y = 0\<rparr>), (''D'', \<lparr>pos_x = 0, pos_y = 0\<rparr>)]"

lemma square_dijkstra:
  "path_of (dijkstra pl square_graph ''A'' ''D'') = [''A'', ''B'', ''C'', ''D''] \<and>
   map current (steps_of (dijkstra pl square_graph ''A'' ''D'')) = [''A'', ''B'', ''C'', ''D'']"
  by (simp add: square_graph_def square_edges_def eval_defs steps_of_def path_of_def)

lemma square_astar:
  "path_of (astar pl square_graph ''A'' ''D'' line_positions) = [''A'', ''B'', ''C'', ''D''] \<and>
   map current (steps_of (astar pl square_graph ''A'' ''D'' line_positions)) = [''A'', ''B'', ''C'', ''D'']"
  by (simp add: square_graph_def square_edges_def line_positions_def eval_defs steps_of_def path_of_def)

definition route_steps :: "(exn + RouteResult) option \<Rightarrow> PathStep list" where
  "route_steps r = (case r of Some (Inr res) \<Rightarrow> steps res | _ \<Rightarrow> [])"

lemma sorted_order_valid: "\<forall>S. finite S \<longrightarrow> set (sorted_order S) = S \<and> distinct (sorted_order S)"
  by (simp add: sorted_order_def)

lemma square_dijkstra_run:
  "dijkstra pl square_graph ''A'' ''D'' =
     Some (Inr (path_of (dijkstra pl square_graph ''A'' ''D''),
                steps_of (dijkstra pl square_graph ''A'' ''D'')))"
  by (simp add: square_graph_def square_edges_def eval_defs steps_of_def path_of_def)

lemma square_astar_run:
  "astar pl square_graph ''A'' ''D'' line_positions =
     Some (Inr (path_of (astar pl square_graph ''A'' ''D'' line_positions),
                steps_of (astar pl square_graph ''A'' ''D'' line_positions)))"
  by (simp add: square_graph_def square_edges_def line_positions_def eval_defs steps_of_def
      path_of_def)

theorem each_node_settled_once_witness:
  "distinct (map current (steps_of (dijkstra sorted_order square_graph ''A'' ''D''))) \<and>
   length (steps_of (dijkstra sorted_order square_graph ''A'' ''D'')) \<le>
     card (set (Graph.nodes square_graph)) \<and>
   distinct (map current (steps_of (astar sorted_order square_graph ''A'' ''D'' line_positions))) \<and>
   length (steps_of (astar sorted_order square_graph ''A'' ''D'' line_positions)) \<le>
     card (set (Graph.nodes square_graph))"
proof -
  have m: "''A'' \<in> set (Graph.nodes square_graph)" by (simp add: square_graph_def)
  from each_node_settled_once [of sorted_order square_graph "''A''" "''D''" line_positions]
    square_dijkstra_run [of sorted_order] square_astar_run [of sorted_order] m
  show ?thesis by blast
qed

lemma square_dijkstra_len: "length (steps_of (dijkstra pl square_graph ''A'' ''D'')) = 4"
  using arg_cong [OF conjunct2 [OF square_dijkstra], of length pl] by simp

lemma square_astar_len:
  "length (steps_of (astar pl square_graph ''A'' ''D'' line_positions)) = 4"
  using arg_cong [OF conjunct2 [OF square_astar], of length pl] by simp

theorem visited_lists_enumerate_settled_witness:
  "visited (steps_of (dijkstra sorted_order square_graph ''A'' ''D'') ! Suc 0) =
     sorted_order (set (map current
       (take (Suc (Suc 0)) (steps_of (dijkstra sorted_order square_graph ''A'' ''D''))))) \<and>
   set (visited (steps_of (dijkstra sorted_order square_graph ''A'' ''D'') ! Suc (Suc 0))) =
     insert (current (steps_of (dijkstra sorted_order square_graph ''A'' ''D'') ! Suc (Suc 0)))
       (set (visited (steps_of (dijkstra sorted_order square_graph ''A'' ''D'') ! Suc 0))) \<and>
   set (visited (steps_of (astar sorted_order square_graph ''A'' ''D'' line_positions) !
          Suc (Suc 0))) =
     insert (current (steps_of (astar sorted_order square_graph ''A'' ''D'' line_positions) !
               Suc (Suc 0)))
       (set (visited (steps_of (astar sorted_order square_graph ''A'' ''D'' line_positions) !
               Suc 0)))"
proof -
  have l: "Suc 0 < length (steps_of (dijkstra sorted_order square_graph ''A'' ''D''))"
    "Suc (Suc 0) < length (steps_of (dijkstra sorted_order square_graph ''A'' ''D''))"
    "Suc 0 < length (steps_of (astar sorted_order square_graph ''A'' ''D'' line_positions))"
    "Suc (Suc 0) < length (steps_of (astar sorted_order square_graph ''A'' ''D'' line_positions))"
    by (simp_all add: square_dijkstra_len square_astar_len)
  from visited_lists_enumerate_settled [OF sorted_order_valid disjI1 [OF square_dijkstra_run] l(1)]
    visited_lists_enumerate_settled [OF sorted_order_valid disjI2 [OF square_astar_run] l(3)]
    l(2) l(4)
  show ?thesis by blast
qed

definition fork_request :: RouteRequest where
  "fork_request =
     \<lparr>RouteRequest.nodes = [''A'', ''B'', ''C''],
      RouteRequest.edges = [\<lparr>from' = ''A'', to = ''C'', distance = 1, traffic = 0\<rparr>,
                            \<lparr>from' = ''A'', to = ''B'', distance = 2, traffic = 0\<rparr>],
      start = ''A'', end' = ''B'', algorithm = ''dijkstra'', weightType = ''distance'',
      nodePositions = []\<rparr>"

text \<open>
  Against C4 as stated: with sets enumerated in increasing order, the search from A to B on
  the edges A-C (1) and A-B (2) settles A, C, B, and the third snapshot lists the visited nodes
  as A, B, C, which is not the second list A, C with B appended.
\<close>

theorem visited_not_in_settlement_order:
  "map current (route_steps (calculate_route sorted_order fork_request)) = [''A'', ''C'', ''B''] \<and>
   map visited (route_steps (calculate_route sorted_order fork_request)) =
     [[''A''], [''A'', ''C''], [''A'', ''B'', ''C'']]"
  by (simp add: fork_request_def route_steps_def sorted_order_def eval_defs)

definition far_request :: RouteRequest where
  "far_request =
     \<lparr>RouteRequest.nodes = [''A'', ''B''],
      RouteRequest.edges = [\<lparr>from' = ''A'', to = ''B'', distance = 2000000, traffic = 0\<rparr>],
      start = ''A'', end' = ''B'', algorithm = ''dijkstra'', weightType = ''distance'',
      nodePositions = []\<rparr>"

text \<open>
  Against C10 as stated: on the single edge A-B of distance 2000000 the recorded cost of B is
  the sentinel 999999 in the first snapshot and 2000000 in the second.
\<close>

theorem recorded_cost_rises_from_sentinel:
  "map_of (distances (route_steps (calculate_route sorted_order far_request) ! 0)) ''B'' = Some 999999 \<and>
   map_of (distances (route_steps (calculate_route sorted_order far_request) ! 1)) ''B'' = Some 2000000"
  by (simp add: far_request_def route_steps_def sorted_order_def eval_defs)

definition lone_start_request :: RouteRequest where
  "lone_start_request =
     \<lparr>RouteRequest.nodes = [], RouteRequest.edges = [],
      start = ''X'', end' = ''X'', algorithm = ''dijkstra'', weightType = ''distance'',
      nodePositions = []\<rparr>"

text \<open>
  Against C9 as stated: a request that declares no node at all and asks for the route from X
  to X is answered with the path X and a trace of one snapshot, whose current node is X. The
  trace has more snapshots than the graph has nodes.
\<close>

theorem snapshots_exceed_declared_nodes:
  "RouteRequest.nodes lone_start_request = [] \<and>
   map current (route_steps (calculate_route sorted_order lone_start_request)) = [''X''] \<and>
   length (route_steps (calculate_route sorted_order lone_start_request)) = 1 \<and>
   card (set (RouteRequest.nodes lone_start_request)) = 0"
  by (simp add: lone_start_request_def route_steps_def sorted_order_def eval_defs)

lemma square_snapshot_1:
  "previous (steps_of (dijkstra pl square_graph ''A'' ''D'') ! 1) = [(''B'', ''A''), (''D'', ''A'')]"
  by (simp add: square_graph_def square_edges_def eval_defs steps_of_def)


lemma square_snapshot_prev_D:
  "map_of (previous (steps_of (dijkstra pl square_graph ''A'' ''D'') ! 1)) ''D'' \<noteq> None"
  by (simp add: square_graph_def square_edges_def eval_defs steps_of_def)

lemma square_settled_A:
  "''A'' \<in> set (map current (take (Suc 1) (steps_of (dijkstra pl square_graph ''A'' ''D''))))"
  by (simp add: square_graph_def square_edges_def eval_defs steps_of_def)

theorem recorded_costs_monotone_witness:
  "(\<exists>c c'. map_of (distances (steps_of (dijkstra sorted_order square_graph ''A'' ''D'') ! 1)) ''D'' = Some c \<and>
       map_of (distances (steps_of (dijkstra sorted_order square_graph ''A'' ''D'') ! 3)) ''D'' = Some c' \<and>
       c' \<le> c) \<and>
   map_of (distances (steps_of (dijkstra sorted_order square_graph ''A'' ''D'') ! 3)) ''A'' =
   map_of (distances (steps_of (dijkstra sorted_order square_graph ''A'' ''D'') ! 1)) ''A''"
proof -
  have l: "(1::nat) < 3" "(3::nat) < length (steps_of (dijkstra sorted_order square_graph ''A'' ''D''))"
    by (simp_all add: square_dijkstra_len)
  note d = recorded_costs_monotone [OF disjI1 [OF square_dijkstra_run] l, of "''D''",
      THEN conjunct1, rule_format, OF disjI2 [OF square_snapshot_prev_D]]
  note a = recorded_costs_monotone [OF disjI1 [OF square_dijkstra_run] l, of "''A''",
      THEN conjunct2, rule_format, OF square_settled_A]
  from d a show ?thesis by (intro conjI)
qed

section \<open>The route service: policies, failures and the trivial route\<close>

definition route_outcome ::
  "(exn + RouteResult) option \<Rightarrow> (exn + bool \<times> string list \<times> real \<times> real) option" where
  "route_outcome r =
     map_option (map_sum id (\<lambda>res. (success res, path res, totalDistance res, totalTraffic res))) r"

lemma build_edges_weight:
  "get_weight wt = get_weight wt' \<Longrightarrow> build_edges wt es adj = build_edges wt' es adj"
  by (induction es arbitrary: adj) (simp_all add: Let_def split: option.splits)

lemma get_weight_other:
  "wt \<noteq> ''distance'' \<Longrightarrow> wt \<noteq> ''traffic'' \<Longrightarrow> get_weight wt = get_weight ''combined''"
  by (simp add: get_weight_def fun_eq_iff)

definition detour_request :: RouteRequest where
  "detour_request =
     \<lparr>RouteRequest.nodes = [''A'', ''B'', ''C''],
      RouteRequest.edges = [\<lparr>from' = ''A'', to = ''B'', distance = 1, traffic = 10\<rparr>,
                            \<lparr>from' = ''A'', to = ''C'', distance = 2, traffic = 0\<rparr>,
                            \<lparr>from' = ''C'', to = ''B'', distance = 2, traffic = 0\<rparr>],
      start = ''A'', end' = ''B'', algorithm = ''dijkstra'', weightType = ''fastest'',
      nodePositions = []\<rparr>"

text \<open>
  Against C3 as stated: the request with the weight type \<open>fastest\<close> is not rejected. It is
  answered with the route A, C, B, the shortest one under \<open>distance + 2 * traffic\<close> (the
  direct edge A-B is the shortest by distance).
\<close>

theorem unknown_policy_accepted:
  "route_outcome (calculate_route sorted_order detour_request) =
     Some (Inr (True, [''A'', ''C'', ''B''], 4, 0))"
  by (simp add: detour_request_def route_outcome_def sorted_order_def eval_defs)

text \<open>
  C3, as amended. The policy name is never validated. Under every name other than \<open>distance\<close>
  and \<open>traffic\<close> the weight of an edge is \<open>distance + 2 * traffic\<close>, and the request is
  answered exactly as the same request with the weight type \<open>combined\<close>.
\<close>

theorem unknown_policy_is_combined:
  assumes "wt \<noteq> ''distance''" and "wt \<noteq> ''traffic''"
  shows "(\<forall>edge. get_weight wt edge = distance edge + traffic edge * 2) \<and>
         calculate_route pl (r\<lparr>weightType := wt\<rparr>) =
         calculate_route pl (r\<lparr>weightType := ''combined''\<rparr>)"
proof -
  have w: "get_weight wt = get_weight ''combined''" using assms by (rule get_weight_other)
  have b: "build_adjacency_list ns es wt = build_adjacency_list ns es ''combined''" for ns es
    unfolding build_adjacency_list_def by (rule build_edges_weight [OF w])
  have "calculate_route pl (r\<lparr>weightType := wt\<rparr>) =
        calculate_route pl (r\<lparr>weightType := ''combined''\<rparr>)"
  proof (cases "build_adjacency_list (RouteRequest.nodes r) (RouteRequest.edges r) ''combined''")
    case (Inl ex)
    then show ?thesis by (simp add: calculate_route_def Graph_init_def b)
  next
    case (Inr adj)
    let ?g = "\<lambda>w. \<lparr>Graph.nodes = RouteRequest.nodes r, edges = RouteRequest.edges r,
                    weight_type = w, adj_list = adj\<rparr>"
    have d: "dijkstra pl (?g wt) = dijkstra pl (?g ''combined'')"
      by (simp add: dijkstra_def fun_eq_iff)
    have a: "astar pl (?g wt) = astar pl (?g ''combined'')"
      by (simp add: astar_def fun_eq_iff split: sum.splits)
    from Inr show ?thesis
      by (simp add: calculate_route_def Graph_init_def b d a
          cong: option.case_cong sum.case_cong if_cong)
  qed
  moreover have "\<forall>edge. get_weight wt edge = distance edge + traffic edge * 2"
    using assms by (simp add: get_weight_def)
  ultimately show ?thesis by simp
qed

theorem unknown_policy_is_combined_witness:
  "''fastest'' \<noteq> ''distance'' \<and> ''fastest'' \<noteq> ''traffic'' \<and>
   calculate_route sorted_order (detour_request\<lparr>weightType := ''fastest''\<rparr>) =
   calculate_route sorted_order (detour_request\<lparr>weightType := ''combined''\<rparr>)"
proof -
  have n: "''fastest'' \<noteq> ''distance''" "''fastest'' \<noteq> ''traffic''" by simp_all
  from unknown_policy_is_combined [OF n, of sorted_order detour_request] n
  show ?thesis by (intro conjI) (elim conjE, assumption)+
qed

definition missing_position_request :: RouteRequest where
  "missing_position_request =
     \<lparr>RouteRequest.nodes = [''X'', ''A''],
      RouteRequest.edges = [\<lparr>from' = ''X'', to = ''A'', distance = 1, traffic = 0\<rparr>],
      start = ''X'', end' = ''A'', algorithm = ''astar'', weightType = ''distance'',
      nodePositions = [(''A'', \<lparr>pos_x = 0, pos_y = 0\<rparr>)]\<rparr>"

definition unknown_start_request :: RouteRequest where
  "unknown_start_request =
     \<lparr>RouteRequest.nodes = [''A''], RouteRequest.edges = [],
      start = ''X'', end' = ''A'', algorithm = ''dijkstra'', weightType = ''distance'',
      nodePositions = []\<rparr>"

text \<open>
  Against C7 as stated: an \<open>astar\<close> request whose start node X has no position, and a
  \<open>dijkstra\<close> request whose start node X is not a declared node (a fault inside the search),
  get the same response, the error 500 whose detail is the text of \<open>KeyError X\<close>.
\<close>

theorem missing_position_not_distinct:
  "calculate_route sorted_order missing_position_request =
     Some (Inl (HTTPException 500 (Str (KeyError ''X'')))) \<and>
   calculate_route sorted_order unknown_start_request =
     Some (Inl (HTTPException 500 (Str (KeyError ''X''))))"
  by (simp add: missing_position_request_def unknown_start_request_def eval_defs)

text \<open>
  C7, as amended. For an \<open>astar\<close> request whose graph is built: when the start node has no
  position, or the start node has one and the end node has none, the response is the error
  500 whose detail is the text of the \<open>KeyError\<close> for that node; and every exception the
  search raises, the \<open>KeyError\<close> of a later heuristic lookup among them, is reported in this
  way. This is the handler of every exception of the service: the failure differs from the
  no-path result, which is a returned value, and not from other internal errors.
\<close>

theorem missing_position_is_error_500:
  assumes alg: "algorithm r = ''astar''"
    and g: "Graph_init (RouteRequest.nodes r) (RouteRequest.edges r) (weightType r) = Inr g"
  shows "(map_of (nodePositions r) (start r) = None \<longrightarrow>
            calculate_route pl r = Some (Inl (HTTPException 500 (Str (KeyError (start r)))))) \<and>
         (map_of (nodePositions r) (start r) \<noteq> None \<longrightarrow> map_of (nodePositions r) (end' r) = None \<longrightarrow>
            calculate_route pl r = Some (Inl (HTTPException 500 (Str (KeyError (end' r)))))) \<and>
         (\<forall>ex. astar pl g (start r) (end' r) (nodePositions r) = Some (Inl ex) \<longrightarrow>
            calculate_route pl r = Some (Inl (HTTPException 500 (Str ex))))"
  using alg g
  by (auto simp: calculate_route_def astar_def heuristic_def split: option.splits)

theorem missing_position_is_error_500_witness:
  "algorithm missing_position_request = ''astar'' \<and>
   map_of (nodePositions missing_position_request) (start missing_position_request) = None \<and>
   calculate_route sorted_order missing_position_request =
     Some (Inl (HTTPException 500 (Str (KeyError (start missing_position_request)))))"
proof -
  have a: "algorithm missing_position_request = ''astar''"
    and m: "map_of (nodePositions missing_position_request) (start missing_position_request) = None"
    by (simp_all add: missing_position_request_def)
  obtain g where g: "Graph_init (RouteRequest.nodes missing_position_request)
      (RouteRequest.edges missing_position_request) (weightType missing_position_request) = Inr g"
    by (simp add: missing_position_request_def eval_defs)
  from missing_position_is_error_500 [OF a g, of sorted_order, THEN conjunct1, rule_format, OF m] a m
  show ?thesis by (intro conjI)
qed

definition empty_label_request :: RouteRequest where
  "empty_label_request =
     \<lparr>RouteRequest.nodes = [''''], RouteRequest.edges = [],
      start = '''', end' = '''', algorithm = ''dijkstra'', weightType = ''distance'',
      nodePositions = []\<rparr>"

text \<open>
  C5 fails on the code for the empty node label: with start and end both the empty string,
  the reconstruction loop \<^verbatim>\<open>while current:\<close> stops before it adds the node, the path is empty
  and the negative result is returned. (For every other label the claim holds: lemma
  \<open>start_equals_end\<close> below.)
\<close>

theorem empty_label_no_path:
  "calculate_route pl empty_label_request =
     Some (Inr \<lparr>success = False, message = Some ''No path found between selected nodes'',
                path = [], steps = [], totalDistance = 0, totalTraffic = 0\<rparr>)"
  by (simp add: empty_label_request_def eval_defs)

theorem empty_label_no_path_witness:
  "start empty_label_request = end' empty_label_request \<and>
   calculate_route sorted_order empty_label_request =
     Some (Inr \<lparr>success = False, message = Some ''No path found between selected nodes'',
                path = [], steps = [], totalDistance = 0, totalTraffic = 0\<rparr>)"
  using empty_label_no_path [of sorted_order] by (simp add: empty_label_request_def)

lemma py_round2_0 [simp]: "py_round2 0 = 0"
  by (simp add: py_round2_def)

lemma start_equals_end:
  assumes se: "start r = end' r" and ne: "start r \<noteq> []"
    and g: "Graph_init (RouteRequest.nodes r) (RouteRequest.edges r) (weightType r) = Inr g"
    and alg: "algorithm r = ''dijkstra'' \<or>
              (algorithm r = ''astar'' \<and> map_of (nodePositions r) (start r) \<noteq> None)"
  shows "\<exists>a. calculate_route pl r =
           Some (Inr \<lparr>success = True, message = None, path = [start r], steps = [a],
                      totalDistance = 0, totalTraffic = 0\<rparr>) \<and> current a = start r"
  using alg
proof
  assume "algorithm r = ''dijkstra''"
  with se ne g show ?thesis
    by (simp add: calculate_route_def dijkstra_def dijkstra_loop.simps heappop_single Let_def
        reconstruct.simps snapshot_def)
next
  assume "algorithm r = ''astar'' \<and> map_of (nodePositions r) (start r) \<noteq> None"
  with se ne g show ?thesis
    by (auto simp: calculate_route_def astar_def heuristic_def astar_loop.simps heappop_single
        Let_def reconstruct.simps snapshot_def)
qed

section \<open>Links, walks and the built graph\<close>


inductive walk :: "(string \<Rightarrow> string \<Rightarrow> real \<Rightarrow> bool) \<Rightarrow> string \<Rightarrow> string list \<Rightarrow> real \<Rightarrow> bool"
  for A :: "string \<Rightarrow> string \<Rightarrow> real \<Rightarrow> bool" and s :: string where
  walk_start: "walk A s [s] 0"
| walk_step: "walk A s p c \<Longrightarrow> A (last p) v w \<Longrightarrow> walk A s (p @ [v]) (c + w)"


lemma walk_nonempty: "walk A s p c \<Longrightarrow> p \<noteq> [] \<and> hd p = s"
  by (induction rule: walk.induct) auto












section \<open>The invariant of the frontier\<close>














section \<open>Settled costs are least\<close>















section \<open>The returned path\<close>











definition cut_request :: RouteRequest where
  "cut_request =
     \<lparr>RouteRequest.nodes = [''A'', '''', ''B''],
      RouteRequest.edges = [\<lparr>from' = ''A'', to = '''', distance = 1, traffic = 0\<rparr>,
                            \<lparr>from' = '''', to = ''B'', distance = 1, traffic = 0\<rparr>],
      start = ''A'', end' = ''B'', algorithm = ''dijkstra'', weightType = ''distance'',
      nodePositions = []\<rparr>"

text \<open>
  A route through the node with the empty label: the search settles A, the empty label and B,
  and the path that is returned is B alone.
\<close>

lemma path_cut_at_empty_label:
  "map current (route_steps (calculate_route sorted_order cut_request)) = [''A'', '''', ''B''] \<and>
   (\<exists>res. calculate_route sorted_order cut_request = Some (Inr res) \<and> path res = [''B''])"
  by (simp add: cut_request_def route_steps_def sorted_order_def eval_defs)

section \<open>Unreachable end nodes\<close>















end
